theory Spec2Isabelle
  imports Complex_Main "HOL-Library.Word"
begin

section \<open>Values, bytes and errors\<close>

text \<open>
  The editor (\<^verbatim>\<open>dat_avatar_gui_v1.3.py\<close>) keeps the whole file in one \<^verbatim>\<open>bytearray\<close>
  and every record as a dictionary from field names to Python values. A byte is an
  \<open>8 word\<close>; a Python \<^verbatim>\<open>str\<close> is the list of its code points; a dictionary value is an
  integer, a string or \<^verbatim>\<open>None\<close>. Every exception the code can raise is a value.
\<close>

type_synonym byte = "8 word"
type_synonym bytes = "byte list"
type_synonym pystr = "nat list"

datatype error =
  IndexError | StructError | TypeError | ValueError | OverflowError
  | UnicodeEncodeError | RuntimeError | PermissionError

datatype pyval = VInt int | VStr pystr | VNone

text \<open>A string literal of the source, as code points.\<close>

definition lit :: "string \<Rightarrow> pystr" where
  "lit s = map of_char s"

section \<open>Helpers for endianness and bytes\<close>

fun le_val :: "bytes \<Rightarrow> int" where
  "le_val [] = 0"
| "le_val (b # bs) = uint b + 256 * le_val bs"

fun le_bytes :: "nat \<Rightarrow> int \<Rightarrow> bytes" where
  "le_bytes 0 v = []"
| "le_bytes (Suc n) v = word_of_int v # le_bytes n (v div 256)"

text \<open>\<^verbatim>\<open>struct.unpack_from("<I", b, off)\<close>: four bytes must be there.\<close>

definition read_u32_le :: "bytes \<Rightarrow> nat \<Rightarrow> error + int" where
  "read_u32_le b off =
     (if off + 4 \<le> length b then Inr (le_val (take 4 (drop off b))) else Inl StructError)"

definition read_i32_le :: "bytes \<Rightarrow> nat \<Rightarrow> error + int" where
  "read_i32_le b off =
     (if off + 4 \<le> length b
      then (let v = le_val (take 4 (drop off b))
            in Inr (if 2 ^ 31 \<le> v then v - 2 ^ 32 else v))
      else Inl StructError)"

text \<open>
  A write into the bytearray changes it in place, also when it raises: a failed write
  gives the exception together with the buffer as the failure left it.
  \<^verbatim>\<open>struct.pack_into\<close> first checks that the four bytes lie within the buffer and
  raises with the buffer untouched when they do not; it then clears the four bytes, and
  raises for a value outside the format's range with the four bytes left zero.
\<close>

definition write_u32_le :: "bytes \<Rightarrow> nat \<Rightarrow> int \<Rightarrow> error \<times> bytes + bytes" where
  "write_u32_le barr off val =
     (if length barr < off + 4 then Inl (StructError, barr)
      else if val < 0 \<or> 2 ^ 32 \<le> val
        then Inl (StructError, take off barr @ replicate 4 0 @ drop (off + 4) barr)
      else Inr (take off barr @ le_bytes 4 val @ drop (off + 4) barr))"

definition write_i32_le :: "bytes \<Rightarrow> nat \<Rightarrow> int \<Rightarrow> error \<times> bytes + bytes" where
  "write_i32_le barr off val =
     (if length barr < off + 4 then Inl (StructError, barr)
      else if val < - (2 ^ 31) \<or> 2 ^ 31 \<le> val
        then Inl (StructError, take off barr @ replicate 4 0 @ drop (off + 4) barr)
      else Inr (take off barr @ le_bytes 4 (val mod 2 ^ 32) @ drop (off + 4) barr))"

definition read_u8 :: "bytes \<Rightarrow> nat \<Rightarrow> error + int" where
  "read_u8 b off = (if off < length b then Inr (uint (b ! off)) else Inl IndexError)"

text \<open>\<^verbatim>\<open>barr[off] = int(val) & 0xFF\<close>.\<close>

definition write_u8 :: "bytes \<Rightarrow> nat \<Rightarrow> int \<Rightarrow> error \<times> bytes + bytes" where
  "write_u8 barr off val =
     (if off < length barr then Inr (barr[off := word_of_int (val mod 256)])
      else Inl (IndexError, barr))"

subsection \<open>UTF-8 and Latin-1\<close>

definition is_surrogate :: "nat \<Rightarrow> bool" where
  "is_surrogate c \<longleftrightarrow> 0xD800 \<le> c \<and> c \<le> 0xDFFF"

definition byte_of :: "nat \<Rightarrow> byte" where
  "byte_of n = of_nat n"

text \<open>The bytes of one code point; a surrogate has none.\<close>

definition utf8_cp :: "nat \<Rightarrow> bytes option" where
  "utf8_cp c =
     (if c < 0x80 then Some [byte_of c]
      else if c < 0x800 then Some [byte_of (0xC0 + c div 64), byte_of (0x80 + c mod 64)]
      else if is_surrogate c then None
      else if c < 0x10000 then
        Some [byte_of (0xE0 + c div 4096), byte_of (0x80 + c div 64 mod 64),
              byte_of (0x80 + c mod 64)]
      else
        Some [byte_of (0xF0 + c div 262144), byte_of (0x80 + c div 4096 mod 64),
              byte_of (0x80 + c div 64 mod 64), byte_of (0x80 + c mod 64)])"

text \<open>\<^verbatim>\<open>text.encode("utf-8", errors="ignore")\<close> drops what it cannot encode.\<close>

fun utf8_encode_ignore :: "pystr \<Rightarrow> bytes" where
  "utf8_encode_ignore [] = []"
| "utf8_encode_ignore (c # cs) =
     (case utf8_cp c of None \<Rightarrow> utf8_encode_ignore cs
      | Some bs \<Rightarrow> bs @ utf8_encode_ignore cs)"

text \<open>\<^verbatim>\<open>text.encode("utf-8")\<close> raises at the first surrogate.\<close>

fun utf8_encode_strict :: "pystr \<Rightarrow> error + bytes" where
  "utf8_encode_strict [] = Inr []"
| "utf8_encode_strict (c # cs) =
     (case utf8_cp c of None \<Rightarrow> Inl UnicodeEncodeError
      | Some bs \<Rightarrow> (case utf8_encode_strict cs of Inl e \<Rightarrow> Inl e
                    | Inr r \<Rightarrow> Inr (bs @ r)))"

definition is_cont :: "byte \<Rightarrow> bool" where
  "is_cont b \<longleftrightarrow> 0x80 \<le> unat b \<and> unat b \<le> 0xBF"

text \<open>One step of the strict decoder: the code point at the head of the bytes and the
  number of bytes it took. Overlong forms, surrogates and values above U+10FFFF are
  rejected, as Python's decoder does.\<close>

definition utf8_step :: "bytes \<Rightarrow> (nat \<times> nat) option" where
  "utf8_step bs =
     (case bs of
        [] \<Rightarrow> None
      | b0 # r0 \<Rightarrow>
          (let x = unat b0 in
           if x < 0x80 then Some (x, 1)
           else if 0xC2 \<le> x \<and> x \<le> 0xDF then
             (case r0 of
                b1 # _ \<Rightarrow>
                  if is_cont b1 then Some ((x - 0xC0) * 64 + (unat b1 - 0x80), 2) else None
              | _ \<Rightarrow> None)
           else if 0xE0 \<le> x \<and> x \<le> 0xEF then
             (case r0 of
                b1 # b2 # _ \<Rightarrow>
                  if is_cont b1 \<and> is_cont b2
                     \<and> (x = 0xE0 \<longrightarrow> 0xA0 \<le> unat b1)
                     \<and> (x = 0xED \<longrightarrow> unat b1 \<le> 0x9F)
                  then Some ((x - 0xE0) * 4096 + (unat b1 - 0x80) * 64 + (unat b2 - 0x80), 3)
                  else None
              | _ \<Rightarrow> None)
           else if 0xF0 \<le> x \<and> x \<le> 0xF4 then
             (case r0 of
                b1 # b2 # b3 # _ \<Rightarrow>
                  if is_cont b1 \<and> is_cont b2 \<and> is_cont b3
                     \<and> (x = 0xF0 \<longrightarrow> 0x90 \<le> unat b1)
                     \<and> (x = 0xF4 \<longrightarrow> unat b1 \<le> 0x8F)
                  then Some ((x - 0xF0) * 262144 + (unat b1 - 0x80) * 4096
                             + (unat b2 - 0x80) * 64 + (unat b3 - 0x80), 4)
                  else None
              | _ \<Rightarrow> None)
           else None))"

lemma utf8_step_pos: "utf8_step bs = Some (c, n) \<Longrightarrow> 0 < n \<and> n \<le> length bs"
  by (auto simp: utf8_step_def Let_def split: list.splits if_splits)

function utf8_decode :: "bytes \<Rightarrow> pystr option" where
  "utf8_decode bs =
     (if bs = [] then Some []
      else (case utf8_step bs of
              None \<Rightarrow> None
            | Some (c, n) \<Rightarrow> map_option ((#) c) (utf8_decode (drop n bs))))"
  by pat_completeness auto
termination
proof (relation "measure length")
  show "wf (measure length)" by simp
next
  fix bs :: bytes and x2 c n
  assume "bs \<noteq> []" "utf8_step bs = Some x2" "(c, n) = x2"
  then have "utf8_step bs = Some (c, n)" by simp
  from utf8_step_pos [OF this] show "(drop n bs, bs) \<in> measure length"
    using \<open>bs \<noteq> []\<close> by simp
qed

declare utf8_decode.simps [simp del]

definition latin1_decode :: "bytes \<Rightarrow> pystr" where
  "latin1_decode bs = map unat bs"

text \<open>
  \<^verbatim>\<open>read_str\<close>: the slice \<^verbatim>\<open>b[off:off+length]\<close> never raises, it is cut at the first zero
  byte and decoded as UTF-8, else as Latin-1. Latin-1 decodes every byte string, so the
  hexadecimal fallback of the source is never reached.
\<close>

definition read_str :: "bytes \<Rightarrow> nat \<Rightarrow> nat \<Rightarrow> pystr" where
  "read_str b off len =
     (let s = takeWhile (\<lambda>x. x \<noteq> 0) (take len (drop off b))
      in case utf8_decode s of Some t \<Rightarrow> t | None \<Rightarrow> latin1_decode s)"

text \<open>\<^verbatim>\<open>barr[lo:hi] = new\<close> on a bytearray: the bounds are clamped to the buffer, the
  slice is replaced and the buffer changes its length when the sizes differ.\<close>

definition slice_assign :: "bytes \<Rightarrow> nat \<Rightarrow> nat \<Rightarrow> bytes \<Rightarrow> bytes" where
  "slice_assign barr lo hi new =
     (let n = length barr; lo' = min lo n; hi' = max lo' (min hi n)
      in take lo' barr @ new @ drop hi' barr)"

definition write_str :: "bytes \<Rightarrow> nat \<Rightarrow> nat \<Rightarrow> pystr \<Rightarrow> bytes" where
  "write_str barr off len text =
     (let raw = take len (utf8_encode_ignore text);
          barr1 = slice_assign barr off (off + len) (replicate len 0)
      in slice_assign barr1 off (off + len) (raw @ replicate (len - length raw) 0))"

section \<open>Record maps\<close>

datatype ftype = U32 | I32 | U8 | Str

text \<open>One entry of a record map: the field's name and \<^verbatim>\<open>(offset, type, length)\<close>. The
  maps are association lists in the source's order, which is the order \<^verbatim>\<open>items()\<close>
  walks a dictionary in.\<close>

type_synonym fieldspec = "string \<times> nat \<times> ftype \<times> nat option"

definition NORMAL_SIZE :: nat where "NORMAL_SIZE = 644"
definition EXITEM_SIZE :: nat where "EXITEM_SIZE = 684"

definition NORMAL_MAP :: "fieldspec list" where
  "NORMAL_MAP =
    [(''avatar_code'', 0, U32, None),
     (''image_number'', 4, U32, None),
     (''name'', 12, Str, Some 19),
     (''show_in_shop'', 35, U8, None),
     (''sell_weekly'', 37, U8, None),
     (''sell_monthly'', 60, U8, None),
     (''sell_eternal'', 84, U8, None),
     (''price_weekly_gold'', 40, U32, None),
     (''price_weekly_cash'', 44, U32, None),
     (''price_monthly_gold'', 64, U32, None),
     (''price_monthly_cash'', 68, U32, None),
     (''price_eternal_gold'', 88, U32, None),
     (''price_eternal_cash'', 92, U32, None),
     (''enable_sale_gold'', 96, U8, None),
     (''enable_sale_cash'', 97, U8, None),
     (''description'', 132, Str, Some 63),
     (''crater_attack'', 104, I32, None),
     (''attack'', 108, I32, None),
     (''defense'', 112, I32, None),
     (''energy'', 116, I32, None),
     (''shield_regen'', 120, I32, None),
     (''item_delay'', 124, I32, None),
     (''popularity'', 128, I32, None)]"

definition EXITEM_MAP :: "fieldspec list" where
  "EXITEM_MAP =
    [(''avatar_code'', 0, U32, None),
     (''ex_number'', 8, U32, None),
     (''name'', 20, Str, Some 19),
     (''show_in_shop'', 43, U8, None),
     (''sell_weekly'', 45, U8, None),
     (''sell_monthly'', 68, U8, None),
     (''sell_eternal'', 92, U8, None),
     (''price_weekly_gold'', 48, U32, None),
     (''price_weekly_cash'', 52, U32, None),
     (''price_monthly_gold'', 72, U32, None),
     (''price_monthly_cash'', 76, U32, None),
     (''price_eternal_gold'', 96, U32, None),
     (''price_eternal_cash'', 100, U32, None),
     (''enable_sale_gold'', 104, U8, None),
     (''enable_sale_cash'', 105, U8, None),
     (''description'', 132, Str, Some 63)]"

text \<open>The stat fields only the Normal layout has (the list the parser and both edit
  handlers spell out).\<close>

definition STAT_FIELDS :: "string list" where
  "STAT_FIELDS = [''crater_attack'', ''attack'', ''defense'', ''energy'',
                  ''shield_regen'', ''item_delay'', ''popularity'']"

datatype rtype = Normal | ExItem

record Record =
  index :: nat
  rtype :: rtype
  raw_off :: nat
  data :: "string \<rightharpoonup> pyval"

definition map_of_rtype :: "rtype \<Rightarrow> fieldspec list" where
  "map_of_rtype ty = (case ty of Normal \<Rightarrow> NORMAL_MAP | ExItem \<Rightarrow> EXITEM_MAP)"

section \<open>DATModel: size detection and parsing\<close>

definition detect_record_size :: "int \<Rightarrow> nat" where
  "detect_record_size total_len =
     (let payload = max 0 (total_len - 4)
      in if payload mod int NORMAL_SIZE = 0 then NORMAL_SIZE
         else if payload mod int EXITEM_SIZE = 0 then EXITEM_SIZE
         else NORMAL_SIZE)"

text \<open>The body of the \<^verbatim>\<open>try\<close> in \<^verbatim>\<open>_parse\<close>: the checks and reads that may raise.\<close>

definition parse_field_try :: "bytes \<Rightarrow> nat \<Rightarrow> string \<Rightarrow> ftype \<Rightarrow> nat option \<Rightarrow> error + pyval" where
  "parse_field_try d oo k t L =
     (if length d \<le> oo then Inl IndexError
      else case t of
        U32 \<Rightarrow> map_sum id VInt (read_u32_le d oo)
      | I32 \<Rightarrow> map_sum id VInt (read_i32_le d oo)
      | U8 \<Rightarrow> (case read_u8 d oo of
                 Inl e \<Rightarrow> Inl e
               | Inr val \<Rightarrow>
                   if k = ''show_in_shop'' then Inr (VInt (if val \<noteq> 0 then 1 else 0))
                   else Inr (VInt val))
      | Str \<Rightarrow> (case L of None \<Rightarrow> Inl TypeError
                | Some len \<Rightarrow> Inr (VStr (read_str d oo len))))"

text \<open>\<^verbatim>\<open>except Exception: rec[k] = None\<close>.\<close>

definition parse_field :: "bytes \<Rightarrow> nat \<Rightarrow> string \<Rightarrow> ftype \<Rightarrow> nat option \<Rightarrow> pyval" where
  "parse_field d oo k t L = (case parse_field_try d oo k t L of Inl e \<Rightarrow> VNone | Inr v \<Rightarrow> v)"

fun parse_fields :: "bytes \<Rightarrow> nat \<Rightarrow> fieldspec list \<Rightarrow> (string \<rightharpoonup> pyval) \<Rightarrow> (string \<rightharpoonup> pyval)" where
  "parse_fields d off [] rec = rec"
| "parse_fields d off ((k, o', t, L) # m) rec =
     parse_fields d off m (rec(k \<mapsto> parse_field d (off + o') k t L))"

definition setdefault :: "string \<Rightarrow> pyval \<Rightarrow> (string \<rightharpoonup> pyval) \<Rightarrow> (string \<rightharpoonup> pyval)" where
  "setdefault k v rec = (case rec k of None \<Rightarrow> rec(k \<mapsto> v) | Some _ \<Rightarrow> rec)"

text \<open>One round of the loop over \<^verbatim>\<open>range(count)\<close>.\<close>

definition parse_record :: "bytes \<Rightarrow> nat \<Rightarrow> nat \<Rightarrow> Record" where
  "parse_record d rsize i =
     (let off = 4 + i * rsize;
          ty = (if rsize = NORMAL_SIZE then Normal else ExItem);
          rec = parse_fields d off (map_of_rtype ty) Map.empty;
          rec' = (case ty of
                    Normal \<Rightarrow> setdefault ''ex_number'' VNone rec
                  | ExItem \<Rightarrow> foldl (\<lambda>r f. setdefault f VNone r)
                                (setdefault ''image_number'' VNone rec) STAT_FIELDS)
      in \<lparr> index = i, rtype = ty, raw_off = off, data = rec' \<rparr>)"

text \<open>\<^verbatim>\<open>count = (total - header) // size\<close> is Python's floor division on integers, and
  \<^verbatim>\<open>range(count)\<close> is empty for a negative count.\<close>

definition parse_count :: "bytes \<Rightarrow> int" where
  "parse_count d = (int (length d) - 4) div int (detect_record_size (int (length d)))"

definition parse :: "bytes \<Rightarrow> Record list" where
  "parse d =
     map (parse_record d (detect_record_size (int (length d)))) [0 ..< nat (parse_count d)]"

section \<open>Python conversions used by save and the exporters\<close>

fun digits_of :: "nat \<Rightarrow> pystr" where
  "digits_of n = (if n < 10 then [48 + n] else digits_of (n div 10) @ [48 + n mod 10])"

declare digits_of.simps [simp del]

text \<open>\<^verbatim>\<open>str(n)\<close> of an integer.\<close>

definition str_of_int :: "int \<Rightarrow> pystr" where
  "str_of_int n = (if n < 0 then 45 # digits_of (nat (- n)) else digits_of (nat n))"

text \<open>\<^verbatim>\<open>str(v)\<close> and the rendering of \<^verbatim>\<open>{v}\<close> in an f-string.\<close>

definition py_str :: "pyval \<Rightarrow> pystr" where
  "py_str v = (case v of VInt n \<Rightarrow> str_of_int n | VStr s \<Rightarrow> s | VNone \<Rightarrow> lit ''None'')"

text \<open>Truth value of a Python value: \<^verbatim>\<open>None\<close>, \<^verbatim>\<open>0\<close> and \<^verbatim>\<open>""\<close> are false.\<close>

definition py_truthy :: "pyval \<Rightarrow> bool" where
  "py_truthy v = (case v of VInt n \<Rightarrow> n \<noteq> 0 | VStr s \<Rightarrow> s \<noteq> [] | VNone \<Rightarrow> False)"

text \<open>\<^verbatim>\<open>int(v)\<close>. The parser of \<^verbatim>\<open>int(str)\<close> is Python's own and is taken as the
  parameter \<open>P\<close> (\<open>None\<close> where Python raises ValueError).\<close>

definition py_int :: "(pystr \<Rightarrow> int option) \<Rightarrow> pyval \<Rightarrow> error + int" where
  "py_int P v =
     (case v of
        VInt n \<Rightarrow> Inr n
      | VStr s \<Rightarrow> (case P s of Some n \<Rightarrow> Inr n | None \<Rightarrow> Inl ValueError)
      | VNone \<Rightarrow> Inl TypeError)"

section \<open>DATModel.save\<close>

text \<open>The body of the \<^verbatim>\<open>try\<close> in the re-encoding loop of \<^verbatim>\<open>save\<close>. The diagnostic
  prints are not modelled.\<close>

definition save_field_try ::
  "(pystr \<Rightarrow> int option) \<Rightarrow> bytes \<Rightarrow> nat \<Rightarrow> string \<Rightarrow> ftype \<Rightarrow> nat option \<Rightarrow> pyval
     \<Rightarrow> error \<times> bytes + bytes" where
  "save_field_try P barr oo k t L val =
     (if length barr \<le> oo then Inl (IndexError, barr)
      else case t of
        U32 \<Rightarrow> (case py_int P val of Inl e \<Rightarrow> Inl (e, barr) | Inr n \<Rightarrow> write_u32_le barr oo n)
      | I32 \<Rightarrow> (case py_int P val of Inl e \<Rightarrow> Inl (e, barr) | Inr n \<Rightarrow> write_i32_le barr oo n)
      | U8 \<Rightarrow>
          if k = ''show_in_shop'' then write_u8 barr oo (if val \<noteq> VInt 0 then 1 else 0)
          else (case py_int P val of Inl e \<Rightarrow> Inl (e, barr) | Inr n \<Rightarrow> write_u8 barr oo n)
      | Str \<Rightarrow>
          (case L of
             None \<Rightarrow> Inl (TypeError, barr)
           | Some len \<Rightarrow> Inr (write_str barr oo len (if py_truthy val then py_str val else []))))"

text \<open>The loop over \<^verbatim>\<open>m.items()\<close> for one record. The buffer is changed in place, so a
  failure leaves the writes made before it and what the failing write did; every
  exception becomes a RuntimeError.\<close>

fun save_fields ::
  "(pystr \<Rightarrow> int option) \<Rightarrow> Record \<Rightarrow> bytes \<Rightarrow> fieldspec list \<Rightarrow> bytes \<times> error option" where
  "save_fields P r barr [] = (barr, None)"
| "save_fields P r barr ((k, o', t, L) # m) =
     (case data r k of
        None \<Rightarrow> save_fields P r barr m
      | Some val \<Rightarrow>
          (case save_field_try P barr (raw_off r + o') k t L val of
             Inl (e, barr') \<Rightarrow> (barr', Some RuntimeError)
           | Inr barr' \<Rightarrow> save_fields P r barr' m))"

fun save_records ::
  "(pystr \<Rightarrow> int option) \<Rightarrow> bytes \<Rightarrow> Record list \<Rightarrow> bytes \<times> error option" where
  "save_records P barr [] = (barr, None)"
| "save_records P barr (r # rs) =
     (case save_fields P r barr (map_of_rtype (rtype r)) of
        (barr', Some e) \<Rightarrow> (barr', Some e)
      | (barr', None) \<Rightarrow> save_records P barr' rs)"

text \<open>
  The files the program can see: their contents, what \<^verbatim>\<open>os.access(p, os.W_OK)\<close>
  answers, and the exception (if any) that opening a path for writing raises. A write
  that fails after the file was opened is not modelled.
\<close>

record env =
  files :: "string \<rightharpoonup> bytes"
  access_w :: "string \<Rightarrow> bool"
  open_w :: "string \<Rightarrow> error option"

record DATModel =
  path :: "string option"
  buf :: bytes
  records :: "Record list"

text \<open>The permission check at the head of \<^verbatim>\<open>save\<close>; opening in append mode writes
  nothing.\<close>

definition save_check :: "env \<Rightarrow> string \<Rightarrow> error option" where
  "save_check e out =
     (if out \<in> dom (files e) then
        (if \<not> access_w e out then Some PermissionError
         else case open_w e out of
                None \<Rightarrow> None
              | Some PermissionError \<Rightarrow> Some PermissionError
              | Some _ \<Rightarrow> Some RuntimeError)
      else None)"

text \<open>\<^verbatim>\<open>out = path or self.path\<close>: an empty string counts as no path.\<close>

definition out_path :: "DATModel \<Rightarrow> string option \<Rightarrow> string option" where
  "out_path m path_arg =
     (case path_arg of Some p \<Rightarrow> if p \<noteq> [] then Some p else path m | None \<Rightarrow> path m)"

text \<open>\<^verbatim>\<open>save\<close>: the error raised (if any), the model and the files afterwards. The
  warning about a buffer shorter than expected only prints.\<close>

definition save ::
  "(pystr \<Rightarrow> int option) \<Rightarrow> env \<Rightarrow> DATModel \<Rightarrow> string option \<Rightarrow> error option \<times> DATModel \<times> env" where
  "save P e m path_arg =
     (case out_path m path_arg of
        None \<Rightarrow> (Some RuntimeError, m, e)
      | Some out \<Rightarrow>
          if out = [] then (Some RuntimeError, m, e)
          else case save_check e out of
            Some err \<Rightarrow> (Some err, m, e)
          | None \<Rightarrow>
              (case save_records P (buf m) (records m) of
                 (b, Some err) \<Rightarrow> (Some err, m\<lparr>buf := b\<rparr>, e)
               | (b, None) \<Rightarrow>
                   (case open_w e out of
                      Some err \<Rightarrow> (Some RuntimeError, m\<lparr>buf := b\<rparr>, e)
                    | None \<Rightarrow> (None, m\<lparr>buf := b\<rparr>, e\<lparr>files := (files e)(out \<mapsto> b)\<rparr>))))"

section \<open>The SQL exporters\<close>

text \<open>\<^verbatim>\<open>rec.data.get(k, 0)\<close>.\<close>

definition get0 :: "Record \<Rightarrow> string \<Rightarrow> pyval" where
  "get0 r k = (case data r k of None \<Rightarrow> VInt 0 | Some v \<Rightarrow> v)"

definition banner :: pystr where
  "banner = lit (''#################################'' @ [CHR 0x0A]
                 @ ''###   BY FIRELORDZ(Agasready)   ###'' @ [CHR 0x0A]
                 @ ''#################################'' @ [CHR 0x0A, CHR 0x0A])"

text \<open>A value between apostrophes, as \<^verbatim>\<open>'{v}'\<close> renders it.\<close>

definition quoted :: "pyval \<Rightarrow> pystr" where
  "quoted v = 39 # py_str v @ [39]"

text \<open>\<^verbatim>\<open>price if enable == 1 and sell == 1 else 0\<close>.\<close>

definition gated_price :: "Record \<Rightarrow> string \<Rightarrow> string \<Rightarrow> string \<Rightarrow> pyval" where
  "gated_price r price enable sell =
     (if get0 r enable = VInt 1 \<and> get0 r sell = VInt 1 then get0 r price else VInt 0)"

definition menu_line :: "Record \<Rightarrow> pystr" where
  "menu_line r =
     (let gold_weekly = gated_price r ''price_weekly_gold'' ''enable_sale_gold'' ''sell_weekly'';
          gold_monthly = gated_price r ''price_monthly_gold'' ''enable_sale_gold'' ''sell_monthly'';
          gold_eternal = gated_price r ''price_eternal_gold'' ''enable_sale_gold'' ''sell_eternal'';
          cash_weekly = gated_price r ''price_weekly_cash'' ''enable_sale_cash'' ''sell_weekly'';
          cash_monthly = gated_price r ''price_monthly_cash'' ''enable_sale_cash'' ''sell_monthly'';
          cash_eternal = gated_price r ''price_eternal_cash'' ''enable_sale_cash'' ''sell_eternal'';
          avatar_code = get0 r ''avatar_code''
      in lit ''INSERT INTO menu (No, Item1, PriceByGoldForW, PriceByGoldForM, PriceByGoldForI, PriceByCashForW, PriceByCashForM, PriceByCashForI, Period1, Volume1) VALUES (''
         @ quoted avatar_code @ lit '', '' @ quoted avatar_code @ lit '', ''
         @ quoted gold_weekly @ lit '', '' @ quoted gold_monthly @ lit '', ''
         @ quoted gold_eternal @ lit '', '' @ quoted cash_weekly @ lit '', ''
         @ quoted cash_monthly @ lit '', '' @ quoted cash_eternal @ lit '', ''
         @ quoted (VStr (lit ''86400'')) @ lit '', '' @ quoted (VStr (lit ''1''))
         @ lit '');'' @ [10])"

text \<open>The loop of \<^verbatim>\<open>export_sql_menu\<close>, with the text built so far. The result is the
  text handed to \<^verbatim>\<open>f.write\<close>; the file write itself is not modelled.\<close>

fun export_sql_menu_loop :: "Record list \<Rightarrow> pystr \<Rightarrow> pystr" where
  "export_sql_menu_loop [] sql = sql"
| "export_sql_menu_loop (r # rs) sql =
     (if get0 r ''show_in_shop'' \<noteq> VInt 1 then export_sql_menu_loop rs sql
      else export_sql_menu_loop rs (sql @ menu_line r))"

definition export_sql_menu :: "Record list \<Rightarrow> pystr" where
  "export_sql_menu rs = export_sql_menu_loop rs banner"

subsection \<open>The float arithmetic of the item report\<close>

text \<open>
  \<^verbatim>\<open>math.floor((price_eternal_gold / 100) * 60)\<close> is computed in binary64 floats. A
  finite float is the pair \<open>(m, q)\<close> of an integer and an exponent, its value
  \<open>m * 2 ^ q\<close>; every operation rounds the exact result to the nearest float with a
  53-bit significand, ties to even.
\<close>

type_synonym float64 = "int \<times> int"

fun bitlen :: "nat \<Rightarrow> nat" where
  "bitlen n = (if n = 0 then 0 else Suc (bitlen (n div 2)))"

declare bitlen.simps [simp del]

text \<open>\<open>a / b\<close> rounded to the nearest integer, ties to even (\<open>0 \<le> a\<close>, \<open>0 < b\<close>).\<close>

definition round_half_even :: "int \<Rightarrow> int \<Rightarrow> int" where
  "round_half_even a b =
     (let f = a div b; r = a mod b
      in if 2 * r < b then f else if b < 2 * r then f + 1
         else if even f then f else f + 1)"

text \<open>The float nearest to \<open>n / d\<close> for \<open>0 < n\<close> and \<open>0 < d\<close>: \<open>e\<close> is the exponent of
  the leading bit, the unit of the last place is \<open>2 ^ (e - 52)\<close>, and not below
  \<open>2 ^ - 1074\<close>.\<close>

definition round_pos :: "int \<Rightarrow> int \<Rightarrow> float64" where
  "round_pos n d =
     (let k = int (bitlen (nat n)) - int (bitlen (nat d));
          e = (if (if 0 \<le> k then d * 2 ^ nat k \<le> n else d \<le> n * 2 ^ nat (- k)) then k else k - 1);
          q = max (e - 52) (- 1074);
          m = (if 0 \<le> q then round_half_even n (d * 2 ^ nat q)
               else round_half_even (n * 2 ^ nat (- q)) d)
      in (m, q))"

definition round_frac :: "int \<Rightarrow> int \<Rightarrow> float64" where
  "round_frac n d =
     (if n = 0 then (0, 0)
      else if n < 0 then (let (m, q) = round_pos (- n) d in (- m, q))
      else round_pos n d)"

text \<open>A rounded result of magnitude \<open>2 ^ 1024\<close> or more is an infinity.\<close>

definition overflows :: "float64 \<Rightarrow> bool" where
  "overflows f = (case f of (m, q) \<Rightarrow> 1024 < int (bitlen (nat \<bar>m\<bar>)) + q)"

text \<open>\<^verbatim>\<open>a / b\<close> on integers (true division, correctly rounded), for \<open>0 < b\<close>.\<close>

definition int_truediv :: "int \<Rightarrow> int \<Rightarrow> error + float64" where
  "int_truediv a b =
     (let f = round_frac a b in if overflows f then Inl OverflowError else Inr f)"

text \<open>\<^verbatim>\<open>f * c\<close> for a float and an integer constant that is a float itself. An overflow
  gives an infinity, which \<^verbatim>\<open>math.floor\<close> then refuses.\<close>

definition float_mul_int :: "float64 \<Rightarrow> int \<Rightarrow> float64" where
  "float_mul_int f c =
     (case f of (m, q) \<Rightarrow>
        if 0 \<le> q then round_frac (m * c * 2 ^ nat q) 1 else round_frac (m * c) (2 ^ nat (- q)))"

definition float_floor :: "float64 \<Rightarrow> error + int" where
  "float_floor f =
     (if overflows f then Inl OverflowError
      else case f of (m, q) \<Rightarrow> Inr (if 0 \<le> q then m * 2 ^ nat q else m div 2 ^ nat (- q)))"

text \<open>\<^verbatim>\<open>preco = math.floor((price_eternal_gold / 100) * 60)\<close>; dividing \<^verbatim>\<open>None\<close> or a
  string raises TypeError.\<close>

definition refund :: "pyval \<Rightarrow> error + int" where
  "refund price_eternal_gold =
     (case price_eternal_gold of
        VInt p \<Rightarrow>
          (case int_truediv p 100 of
             Inl e \<Rightarrow> Inl e
           | Inr f \<Rightarrow> float_floor (float_mul_int f 60))
      | _ \<Rightarrow> Inl TypeError)"

definition item_line :: "Record \<Rightarrow> int \<Rightarrow> pystr" where
  "item_line r preco =
     (let avatar_code = get0 r ''avatar_code''
      in lit ''INSERT INTO item (No, Refund_C, Refund_G, Refund_T, Refund_E) VALUES (''
         @ quoted avatar_code @ lit '', '' @ quoted (VInt preco) @ lit '', ''
         @ quoted (VInt preco) @ lit '', '' @ quoted (VInt preco) @ lit '', ''
         @ quoted (VInt preco) @ lit '');'' @ [10])"

text \<open>The loop of \<^verbatim>\<open>export_sql_item\<close>; an exception of the arithmetic leaves the
  function before anything is written.\<close>

fun export_sql_item_loop :: "Record list \<Rightarrow> pystr \<Rightarrow> error + pystr" where
  "export_sql_item_loop [] sql = Inr sql"
| "export_sql_item_loop (r # rs) sql =
     (if get0 r ''show_in_shop'' \<noteq> VInt 1 then export_sql_item_loop rs sql
      else case refund (get0 r ''price_eternal_gold'') of
             Inl e \<Rightarrow> Inl e
           | Inr preco \<Rightarrow> export_sql_item_loop rs (sql @ item_line r preco))"

definition export_sql_item :: "Record list \<Rightarrow> error + pystr" where
  "export_sql_item rs = export_sql_item_loop rs banner"

section \<open>The edit handlers of the table\<close>

text \<open>
  What one edit does to one record, and what the user is shown: the edit is applied, the
  row is passed over without a word (\<^verbatim>\<open>continue\<close>), a warning box
  (\<^verbatim>\<open>showwarning\<close>) or an information box (\<^verbatim>\<open>showinfo\<close>) is shown and the handler
  returns, an error box (\<^verbatim>\<open>showerror\<close>) is shown and the loop goes on, an error box
  is shown and the handler returns, or an exception leaves the handler. \<open>P\<close> is
  Python's \<^verbatim>\<open>int(str)\<close>, as in \<open>py_int\<close>.
\<close>

datatype outcome =
  Applied | Skipped | Warned | Informed | ErrorContinue | ErrorReturn | Raised error

text \<open>The characters \<^verbatim>\<open>str.strip()\<close> removes from both ends of a string (those for
  which \<^verbatim>\<open>str.isspace\<close> holds).\<close>

definition is_space :: "nat \<Rightarrow> bool" where
  "is_space c \<longleftrightarrow>
     (0x09 \<le> c \<and> c \<le> 0x0D) \<or> (0x1C \<le> c \<and> c \<le> 0x20) \<or> c = 0x85 \<or> c = 0xA0
     \<or> c = 0x1680 \<or> (0x2000 \<le> c \<and> c \<le> 0x200A) \<or> c = 0x2028 \<or> c = 0x2029
     \<or> c = 0x202F \<or> c = 0x205F \<or> c = 0x3000"

definition py_strip :: "pystr \<Rightarrow> pystr" where
  "py_strip s = rev (dropWhile is_space (rev (dropWhile is_space s)))"

definition set_data :: "Record \<Rightarrow> string \<Rightarrow> pyval \<Rightarrow> Record" where
  "set_data r k v = r\<lparr>data := (data r)(k \<mapsto> v)\<rparr>"

text \<open>The body of the loop over the selected rows in \<^verbatim>\<open>apply_batch\<close>, for the record
  of one row.\<close>

definition apply_batch_rec ::
  "(pystr \<Rightarrow> int option) \<Rightarrow> string \<Rightarrow> pystr \<Rightarrow> Record \<Rightarrow> outcome \<times> Record" where
  "apply_batch_rec P field_name vtxt r =
     (if field_name \<in> set STAT_FIELDS \<and> rtype r = ExItem then (Skipped, r)
      else if field_name = ''name'' then
        (case utf8_encode_strict vtxt of
           Inl e \<Rightarrow> (Raised e, r)
         | Inr enc \<Rightarrow>
             if 19 < length enc then (ErrorContinue, r)
             else (Applied, set_data r field_name (VStr vtxt)))
      else if field_name = ''show_in_shop'' then
        (case P vtxt of
           None \<Rightarrow> (ErrorReturn, r)
         | Some val \<Rightarrow>
             if val \<noteq> 0 \<and> val \<noteq> 1 then (ErrorReturn, r)
             else (Applied, set_data r field_name (VInt (if val \<noteq> 0 then 1 else 0))))
      else
        (case P vtxt of
           None \<Rightarrow> (ErrorReturn, r)
         | Some val \<Rightarrow> (Applied, set_data r field_name (VInt val))))"

text \<open>The loop of \<^verbatim>\<open>apply_batch\<close> over the selected row numbers: the records after it
  and the outcome of every row it reached.\<close>

fun apply_batch_loop ::
  "(pystr \<Rightarrow> int option) \<Rightarrow> string \<Rightarrow> pystr \<Rightarrow> Record list \<Rightarrow> nat list \<Rightarrow> Record list \<times> outcome list" where
  "apply_batch_loop P field_name vtxt rs [] = (rs, [])"
| "apply_batch_loop P field_name vtxt rs (idx # sels) =
     (if length rs \<le> idx then (rs, [Raised IndexError])
      else case apply_batch_rec P field_name vtxt (rs ! idx) of
        (ErrorReturn, r') \<Rightarrow> (rs, [ErrorReturn])
      | (Raised e, r') \<Rightarrow> (rs, [Raised e])
      | (oc, r') \<Rightarrow>
          (case apply_batch_loop P field_name vtxt (rs[idx := r']) sels of
             (rs', ocs) \<Rightarrow> (rs', oc # ocs)))"

text \<open>\<^verbatim>\<open>apply_batch\<close>: the field chosen in the combobox, the text of the value entry
  and the selected row numbers. Without a field, without a value (after stripping) or
  without a selection the handler shows a box and returns before the loop.\<close>

definition apply_batch ::
  "(pystr \<Rightarrow> int option) \<Rightarrow> string \<Rightarrow> pystr \<Rightarrow> Record list \<Rightarrow> nat list \<Rightarrow> Record list \<times> outcome list" where
  "apply_batch P field_name entry rs sels =
     (if field_name = [] then (rs, [Warned])
      else let vtxt = py_strip entry in
        if vtxt = [] then (rs, [Warned])
        else if sels = [] then (rs, [Informed])
        else apply_batch_loop P field_name vtxt rs sels)"

text \<open>\<^verbatim>\<open>finish\<close>, the function \<^verbatim>\<open>on_double_click_cell\<close> binds to the end of a cell
  edit, for the text of the edit box and the record of the edited row.\<close>

definition finish ::
  "(pystr \<Rightarrow> int option) \<Rightarrow> string \<Rightarrow> pystr \<Rightarrow> Record \<Rightarrow> outcome \<times> Record" where
  "finish P column entry r =
     (let newv = py_strip entry in
      if column \<in> set STAT_FIELDS \<and> rtype r = ExItem then (ErrorReturn, r)
      else if column = ''name'' then
        (case utf8_encode_strict newv of
           Inl e \<Rightarrow> (Raised e, r)
         | Inr enc \<Rightarrow>
             if 19 < length enc then (ErrorReturn, r)
             else (Applied, set_data r column (VStr newv)))
      else if column = ''show_in_shop'' then
        (case P newv of
           None \<Rightarrow> (ErrorReturn, r)
         | Some val \<Rightarrow>
             if val \<noteq> 0 \<and> val \<noteq> 1 then (ErrorReturn, r)
             else (Applied, set_data r column (VInt (if val \<noteq> 0 then 1 else 0))))
      else if column \<in> {''description''} then
        (case utf8_encode_strict newv of
           Inl e \<Rightarrow> (Raised e, r)
         | Inr enc \<Rightarrow>
             if 63 < length enc then (ErrorReturn, r)
             else (Applied, set_data r column (VStr newv)))
      else if column \<in> set [''avatar_code'', ''image_number'', ''ex_number'', ''sell_weekly'',
                            ''sell_monthly'', ''sell_eternal'', ''enable_sale_gold'',
                            ''enable_sale_cash'', ''price_weekly_gold'', ''price_weekly_cash'',
                            ''price_monthly_gold'', ''price_monthly_cash'',
                            ''price_eternal_gold'', ''price_eternal_cash'', ''crater_attack'',
                            ''attack'', ''defense'', ''energy'', ''shield_regen'',
                            ''item_delay'', ''popularity''] then
        (case P newv of
           None \<Rightarrow> (ErrorReturn, r)
         | Some val \<Rightarrow> (Applied, set_data r column (VInt val)))
      else (ErrorReturn, r))"

section \<open>Size detection\<close>

lemma detect_record_size_cases:
  "detect_record_size t = NORMAL_SIZE \<or> detect_record_size t = EXITEM_SIZE"
  by (simp add: detect_record_size_def Let_def)

lemma length_parse: "length (parse d) = nat (parse_count d)"
  by (simp add: parse_def)

lemma rtype_parse_record:
  "rtype (parse_record d rsize i) = (if rsize = NORMAL_SIZE then Normal else ExItem)"
  by (simp add: parse_record_def Let_def)

text \<open>
  C2. For a total length \<open>t\<close> and \<open>payload = max 0 (t - 4)\<close>, the detector answers the
  Normal size when 644 divides the payload, else the Ex-item size when 684 divides it,
  else the Normal size; a payload both sizes divide gives Normal. The parser makes
  \<open>payload div size\<close> records, all of the variant of that size.
\<close>

theorem size_detection:
  "detect_record_size t =
     (if max 0 (t - 4) mod 644 = 0 then NORMAL_SIZE
      else if max 0 (t - 4) mod 684 = 0 then EXITEM_SIZE else NORMAL_SIZE)
   \<and> NORMAL_SIZE = 644 \<and> EXITEM_SIZE = 684
   \<and> (max 0 (t - 4) mod 644 = 0 \<and> max 0 (t - 4) mod 684 = 0
        \<longrightarrow> detect_record_size t = NORMAL_SIZE)
   \<and> int (length (parse d))
       = max 0 (int (length d) - 4) div int (detect_record_size (int (length d)))
   \<and> (\<forall>r \<in> set (parse d).
         rtype r = (if detect_record_size (int (length d)) = NORMAL_SIZE then Normal else ExItem))"
proof (intro conjI)
  show "detect_record_size t =
     (if max 0 (t - 4) mod 644 = 0 then NORMAL_SIZE
      else if max 0 (t - 4) mod 684 = 0 then EXITEM_SIZE else NORMAL_SIZE)"
    by (simp add: detect_record_size_def Let_def NORMAL_SIZE_def EXITEM_SIZE_def)
  show "NORMAL_SIZE = 644" by (simp add: NORMAL_SIZE_def)
  show "EXITEM_SIZE = 684" by (simp add: EXITEM_SIZE_def)
  show "max 0 (t - 4) mod 644 = 0 \<and> max 0 (t - 4) mod 684 = 0
        \<longrightarrow> detect_record_size t = NORMAL_SIZE"
    by (simp add: detect_record_size_def Let_def NORMAL_SIZE_def EXITEM_SIZE_def)
  show "int (length (parse d))
       = max 0 (int (length d) - 4) div int (detect_record_size (int (length d)))"
  proof -
    define s where "s = int (detect_record_size (int (length d)))"
    have s: "0 < s"
      using detect_record_size_cases [of "int (length d)"]
      by (auto simp: s_def NORMAL_SIZE_def EXITEM_SIZE_def)
    show ?thesis
    proof (cases "4 \<le> length d")
      case True
      then have "0 \<le> (int (length d) - 4) div s"
        using s by (simp add: pos_imp_zdiv_nonneg_iff)
      with True show ?thesis
        by (simp add: length_parse parse_count_def s_def max_def)
    next
      case False
      then have "(int (length d) - 4) div s < 0"
        using s by (simp add: div_neg_pos_less0)
      with False show ?thesis
        by (simp add: length_parse parse_count_def s_def max_def)
    qed
  qed
  show "\<forall>r \<in> set (parse d).
         rtype r = (if detect_record_size (int (length d)) = NORMAL_SIZE then Normal else ExItem)"
    by (auto simp: parse_def rtype_parse_record)
qed

theorem size_detection_witness:
  "detect_record_size 110128 = NORMAL_SIZE
   \<and> detect_record_size 688 = EXITEM_SIZE
   \<and> length (parse (replicate 688 0)) = 1
   \<and> map rtype (parse (replicate 688 0)) = [ExItem]
   \<and> length (parse (replicate 3 0)) = 0"
proof -
  have a: "set (parse (replicate 688 0)) \<noteq> {} \<Longrightarrow> length (parse (replicate 688 0)) = 1
    \<Longrightarrow> \<forall>r \<in> set (parse (replicate 688 0)). rtype r = ExItem
    \<Longrightarrow> map rtype (parse (replicate 688 0)) = [ExItem]"
    by (cases "parse (replicate 688 0)") auto
  have e: "detect_record_size 688 = EXITEM_SIZE"
    using size_detection [of 688 "[]"] by (simp add: NORMAL_SIZE_def EXITEM_SIZE_def)
  have l: "length (parse (replicate 688 0)) = 1"
    using size_detection [of 688 "replicate 688 0"] e by (simp add: EXITEM_SIZE_def)
  have r: "\<forall>r \<in> set (parse (replicate 688 0)). rtype r = ExItem"
    using size_detection [of 688 "replicate 688 0"] e
    by (simp add: NORMAL_SIZE_def EXITEM_SIZE_def)
  have n: "detect_record_size 110128 = NORMAL_SIZE"
    using size_detection [of 110128 "[]"] by simp
  have z: "length (parse (replicate 3 0)) = 0"
    using size_detection [of 3 "replicate 3 0"] by (simp add: NORMAL_SIZE_def)
  from l have "set (parse (replicate 688 0)) \<noteq> {}"
    by (cases "parse (replicate 688 0)") auto
  with a l r have "map rtype (parse (replicate 688 0)) = [ExItem]" by blast
  with e l n z show ?thesis by simp
qed

section \<open>What the parser puts into a record\<close>

lemma parse_fields_notin:
  "k \<notin> fst ` set m \<Longrightarrow> parse_fields d off m rec k = rec k"
  by (induction m arbitrary: rec) auto

lemma parse_fields_in:
  "distinct (map fst m) \<Longrightarrow> (k, o', t, L) \<in> set m \<Longrightarrow>
   parse_fields d off m rec k = Some (parse_field d (off + o') k t L)"
proof (induction m arbitrary: rec)
  case Nil
  then show ?case by simp
next
  case (Cons f m)
  obtain k1 o1 t1 L1 where f: "f = (k1, o1, t1, L1)" by (cases f) auto
  show ?case
  proof (cases "(k, o', t, L) = f")
    case True
    with Cons.prems f have "k \<notin> fst ` set m" by auto
    with True f show ?thesis by (simp add: parse_fields_notin)
  next
    case False
    with Cons.prems have "(k, o', t, L) \<in> set m" "distinct (map fst m)" by auto
    with Cons.IH f show ?thesis by simp
  qed
qed

lemma dom_parse_fields: "dom (parse_fields d off m rec) = dom rec \<union> fst ` set m"
proof (induction m arbitrary: rec)
  case Nil
  then show ?case by simp
next
  case (Cons f m)
  obtain k1 o1 t1 L1 where f: "f = (k1, o1, t1, L1)" by (cases f) auto
  show ?case by (auto simp: f Cons.IH)
qed

lemma setdefault_apply:
  "setdefault k' v rec k = (if k = k' \<and> rec k' = None then Some v else rec k)"
  by (auto simp: setdefault_def split: option.splits)

lemma foldl_setdefault_apply:
  "foldl (\<lambda>r f. setdefault f v r) rec fs k
     = (if k \<in> set fs \<and> rec k = None then Some v else rec k)"
  by (induction fs arbitrary: rec) (auto simp: setdefault_apply)

lemma distinct_NORMAL_MAP: "distinct (map fst NORMAL_MAP)"
  by (simp add: NORMAL_MAP_def)

lemma distinct_EXITEM_MAP: "distinct (map fst EXITEM_MAP)"
  by (simp add: EXITEM_MAP_def)

lemma distinct_map_of_rtype: "distinct (map fst (map_of_rtype ty))"
  by (cases ty) (simp_all add: map_of_rtype_def distinct_NORMAL_MAP distinct_EXITEM_MAP)

lemma keys_NORMAL_MAP:
  "fst ` set NORMAL_MAP = {''avatar_code'', ''image_number'', ''name'', ''show_in_shop'',
     ''sell_weekly'', ''sell_monthly'', ''sell_eternal'', ''price_weekly_gold'',
     ''price_weekly_cash'', ''price_monthly_gold'', ''price_monthly_cash'',
     ''price_eternal_gold'', ''price_eternal_cash'', ''enable_sale_gold'',
     ''enable_sale_cash'', ''description''} \<union> set STAT_FIELDS"
  unfolding NORMAL_MAP_def STAT_FIELDS_def by (simp add: insert_commute)

lemma keys_EXITEM_MAP:
  "fst ` set EXITEM_MAP = {''avatar_code'', ''ex_number'', ''name'', ''show_in_shop'',
     ''sell_weekly'', ''sell_monthly'', ''sell_eternal'', ''price_weekly_gold'',
     ''price_weekly_cash'', ''price_monthly_gold'', ''price_monthly_cash'',
     ''price_eternal_gold'', ''price_eternal_cash'', ''enable_sale_gold'',
     ''enable_sale_cash'', ''description''}"
  unfolding EXITEM_MAP_def by (simp add: insert_commute)

lemma data_parse_record_in:
  assumes "(k, o', t, L) \<in> set (map_of_rtype (rtype (parse_record d rsize i)))"
  shows "data (parse_record d rsize i) k = Some (parse_field d (4 + i * rsize + o') k t L)"
proof -
  let ?ty = "if rsize = NORMAL_SIZE then Normal else ExItem"
  let ?rec = "parse_fields d (4 + i * rsize) (map_of_rtype ?ty) Map.empty"
  from assms have m: "(k, o', t, L) \<in> set (map_of_rtype ?ty)"
    by (simp add: rtype_parse_record)
  have r: "?rec k = Some (parse_field d (4 + i * rsize + o') k t L)"
    by (rule parse_fields_in [OF distinct_map_of_rtype m])
  show ?thesis
    using r
    by (cases "rsize = NORMAL_SIZE")
       (auto simp: parse_record_def Let_def setdefault_apply foldl_setdefault_apply)
qed

lemma dom_parse_record:
  "dom (data (parse_record d rsize i)) = insert ''ex_number'' (fst ` set NORMAL_MAP)"
proof (cases "rsize = NORMAL_SIZE")
  case True
  have "{k. setdefault ''ex_number'' VNone
              (parse_fields d (4 + i * rsize) NORMAL_MAP Map.empty) k \<noteq> None}
        = insert ''ex_number'' (fst ` set NORMAL_MAP)"
    using dom_parse_fields [of d "4 + i * rsize" NORMAL_MAP Map.empty]
    by (auto simp: setdefault_apply dom_def split: if_splits)
  then show ?thesis using True
    by (simp add: parse_record_def Let_def map_of_rtype_def dom_def)
next
  case False
  have "{k. foldl (\<lambda>r f. setdefault f VNone r)
            (setdefault ''image_number'' VNone (parse_fields d (4 + i * rsize) EXITEM_MAP Map.empty))
            STAT_FIELDS k \<noteq> None}
        = fst ` set EXITEM_MAP \<union> insert ''image_number'' (set STAT_FIELDS)"
    using dom_parse_fields [of d "4 + i * rsize" EXITEM_MAP Map.empty]
    by (auto simp: foldl_setdefault_apply setdefault_apply dom_def split: if_splits)
  also have "\<dots> = insert ''ex_number'' (fst ` set NORMAL_MAP)"
    unfolding keys_NORMAL_MAP keys_EXITEM_MAP by auto
  finally show ?thesis using False
    by (simp add: parse_record_def Let_def map_of_rtype_def dom_def)
qed

lemma data_parse_record_other:
  assumes "k \<in> insert ''ex_number'' (fst ` set NORMAL_MAP)"
      and "k \<notin> fst ` set (map_of_rtype (rtype (parse_record d rsize i)))"
  shows "data (parse_record d rsize i) k = Some VNone"
proof (cases "rsize = NORMAL_SIZE")
  case True
  with assms have "k = ''ex_number''"
    by (simp add: rtype_parse_record map_of_rtype_def)
  with True assms(2) show ?thesis
    by (simp add: parse_record_def Let_def setdefault_apply parse_fields_notin
        rtype_parse_record)
next
  case False
  with assms(2) have n: "k \<notin> fst ` set EXITEM_MAP"
    by (simp add: rtype_parse_record map_of_rtype_def)
  with assms(1) have "k = ''image_number'' \<or> k \<in> set STAT_FIELDS"
    unfolding keys_NORMAL_MAP keys_EXITEM_MAP by auto
  with False n show ?thesis
    by (auto simp: parse_record_def Let_def map_of_rtype_def setdefault_apply
        foldl_setdefault_apply parse_fields_notin)
qed

section \<open>The menu report\<close>

text \<open>The test both exporters make before they write a line for a record.\<close>

definition shown :: "Record \<Rightarrow> bool" where
  "shown r \<longleftrightarrow> get0 r ''show_in_shop'' = VInt 1"

lemma export_sql_menu_loop_eq:
  "export_sql_menu_loop rs sql = sql @ concat (map menu_line (filter shown rs))"
  by (induction rs arbitrary: sql) (simp_all add: shown_def)

text \<open>The rule of the specification for one price column, on the fields of the record:
  the stored price if the sale in its currency is enabled and the duration is sold
  (both flags equal to 1), else 0. A price that is not stored counts as 0.\<close>

definition spec_gated :: "Record \<Rightarrow> string \<Rightarrow> string \<Rightarrow> string \<Rightarrow> pyval" where
  "spec_gated r price enable sell =
     (if data r enable = Some (VInt 1) \<and> data r sell = Some (VInt 1)
      then (case data r price of Some v \<Rightarrow> v | None \<Rightarrow> VInt 0)
      else VInt 0)"

text \<open>A text between two apostrophes.\<close>

definition apostrophes :: "string \<Rightarrow> string" where
  "apostrophes s = [CHR 0x27] @ s @ [CHR 0x27]"

text \<open>Three records: one on sale for gold, weekly and eternal; the same one hidden from
  the shop; and one on sale for cash whose \<open>enable_sale_gold\<close> byte is 5.\<close>

definition sale_rec :: Record where
  "sale_rec = \<lparr>index = 0, rtype = Normal, raw_off = 4,
     data = [''avatar_code'' \<mapsto> VInt 1207, ''show_in_shop'' \<mapsto> VInt 1,
             ''enable_sale_gold'' \<mapsto> VInt 1, ''enable_sale_cash'' \<mapsto> VInt 0,
             ''sell_weekly'' \<mapsto> VInt 1, ''sell_monthly'' \<mapsto> VInt 0,
             ''sell_eternal'' \<mapsto> VInt 1,
             ''price_weekly_gold'' \<mapsto> VInt 500, ''price_monthly_gold'' \<mapsto> VInt 1500,
             ''price_eternal_gold'' \<mapsto> VInt 9000, ''price_weekly_cash'' \<mapsto> VInt 5,
             ''price_monthly_cash'' \<mapsto> VInt 15, ''price_eternal_cash'' \<mapsto> VInt 90]\<rparr>"

definition hidden_rec :: Record where
  "hidden_rec = sale_rec\<lparr>index := 1, raw_off := 648,
     data := (data sale_rec)(''show_in_shop'' \<mapsto> VInt 0)\<rparr>"

definition cash_rec :: Record where
  "cash_rec = sale_rec\<lparr>index := 2, raw_off := 1292,
     data := (data sale_rec)(''avatar_code'' \<mapsto> VInt 8, ''enable_sale_gold'' \<mapsto> VInt 5,
               ''enable_sale_cash'' \<mapsto> VInt 1, ''sell_monthly'' \<mapsto> VInt 1)\<rparr>"

lemma get0_eq_1: "get0 r k = VInt 1 \<longleftrightarrow> data r k = Some (VInt 1)"
  by (simp add: get0_def split: option.splits)

lemma gated_price_spec: "gated_price r p e s = spec_gated r p e s"
  by (simp add: gated_price_def spec_gated_def get0_eq_1) (simp add: get0_def)

lemma export_sql_menu_loop_data:
  "export_sql_menu_loop rs sql
     = sql @ concat (map menu_line (filter (\<lambda>r. data r ''show_in_shop'' = Some (VInt 1)) rs))"
  by (induction rs arbitrary: sql) (simp_all add: get0_eq_1)

lemma menu_line_text:
  "menu_line r =
     map of_char ''INSERT INTO menu (No, Item1, PriceByGoldForW, PriceByGoldForM, PriceByGoldForI, PriceByCashForW, PriceByCashForM, PriceByCashForI, Period1, Volume1) VALUES (''
     @ [39] @ py_str (case data r ''avatar_code'' of Some v \<Rightarrow> v | None \<Rightarrow> VInt 0) @ [39]
     @ map of_char '', ''
     @ [39] @ py_str (case data r ''avatar_code'' of Some v \<Rightarrow> v | None \<Rightarrow> VInt 0) @ [39]
     @ map of_char '', ''
     @ [39] @ py_str (spec_gated r ''price_weekly_gold'' ''enable_sale_gold'' ''sell_weekly'') @ [39]
     @ map of_char '', ''
     @ [39] @ py_str (spec_gated r ''price_monthly_gold'' ''enable_sale_gold'' ''sell_monthly'') @ [39]
     @ map of_char '', ''
     @ [39] @ py_str (spec_gated r ''price_eternal_gold'' ''enable_sale_gold'' ''sell_eternal'') @ [39]
     @ map of_char '', ''
     @ [39] @ py_str (spec_gated r ''price_weekly_cash'' ''enable_sale_cash'' ''sell_weekly'') @ [39]
     @ map of_char '', ''
     @ [39] @ py_str (spec_gated r ''price_monthly_cash'' ''enable_sale_cash'' ''sell_monthly'') @ [39]
     @ map of_char '', ''
     @ [39] @ py_str (spec_gated r ''price_eternal_cash'' ''enable_sale_cash'' ''sell_eternal'') @ [39]
     @ map of_char '', '' @ [39] @ map of_char ''86400'' @ [39]
     @ map of_char '', '' @ [39] @ map of_char ''1'' @ [39]
     @ map of_char '');'' @ [10]"
proof -
  have a: "get0 r ''avatar_code'' = (case data r ''avatar_code'' of Some v \<Rightarrow> v | None \<Rightarrow> VInt 0)"
    by (simp add: get0_def split: option.splits)
  show ?thesis
    unfolding menu_line_def Let_def gated_price_spec a quoted_def
    by (simp add: lit_def py_str_def)
qed

lemma menu_report_three_records:
  "export_sql_menu [sale_rec, hidden_rec, cash_rec] =
     map of_char
       (''#################################'' @ [CHR 0x0A]
        @ ''###   BY FIRELORDZ(Agasready)   ###'' @ [CHR 0x0A]
        @ ''#################################'' @ [CHR 0x0A, CHR 0x0A]
        @ ''INSERT INTO menu (No, Item1, PriceByGoldForW, PriceByGoldForM, PriceByGoldForI, PriceByCashForW, PriceByCashForM, PriceByCashForI, Period1, Volume1) VALUES (''
        @ apostrophes ''1207'' @ '', '' @ apostrophes ''1207'' @ '', ''
        @ apostrophes ''500'' @ '', '' @ apostrophes ''0'' @ '', '' @ apostrophes ''9000'' @ '', ''
        @ apostrophes ''0'' @ '', '' @ apostrophes ''0'' @ '', '' @ apostrophes ''0'' @ '', ''
        @ apostrophes ''86400'' @ '', '' @ apostrophes ''1'' @ '');'' @ [CHR 0x0A]
        @ ''INSERT INTO menu (No, Item1, PriceByGoldForW, PriceByGoldForM, PriceByGoldForI, PriceByCashForW, PriceByCashForM, PriceByCashForI, Period1, Volume1) VALUES (''
        @ apostrophes ''8'' @ '', '' @ apostrophes ''8'' @ '', ''
        @ apostrophes ''0'' @ '', '' @ apostrophes ''0'' @ '', '' @ apostrophes ''0'' @ '', ''
        @ apostrophes ''5'' @ '', '' @ apostrophes ''15'' @ '', '' @ apostrophes ''90'' @ '', ''
        @ apostrophes ''86400'' @ '', '' @ apostrophes ''1'' @ '');'' @ [CHR 0x0A])"
proof -
  have s: "data sale_rec ''show_in_shop'' = Some (VInt 1)"
    "data hidden_rec ''show_in_shop'' \<noteq> Some (VInt 1)"
    "data cash_rec ''show_in_shop'' = Some (VInt 1)"
    by (simp_all add: sale_rec_def hidden_rec_def cash_rec_def)
  have d: "str_of_int 1207 = map of_char ''1207''" "str_of_int 500 = map of_char ''500''"
    "str_of_int 9000 = map of_char ''9000''" "str_of_int 0 = map of_char ''0''"
    "str_of_int 8 = map of_char ''8''" "str_of_int 5 = map of_char ''5''"
    "str_of_int 15 = map of_char ''15''" "str_of_int 90 = map of_char ''90''"
    by (simp_all add: str_of_int_def digits_of.simps)
  have l1: "menu_line sale_rec = map of_char
       (''INSERT INTO menu (No, Item1, PriceByGoldForW, PriceByGoldForM, PriceByGoldForI, PriceByCashForW, PriceByCashForM, PriceByCashForI, Period1, Volume1) VALUES (''
        @ apostrophes ''1207'' @ '', '' @ apostrophes ''1207'' @ '', ''
        @ apostrophes ''500'' @ '', '' @ apostrophes ''0'' @ '', '' @ apostrophes ''9000'' @ '', ''
        @ apostrophes ''0'' @ '', '' @ apostrophes ''0'' @ '', '' @ apostrophes ''0'' @ '', ''
        @ apostrophes ''86400'' @ '', '' @ apostrophes ''1'' @ '');'' @ [CHR 0x0A])"
    unfolding menu_line_text
    by (simp add: spec_gated_def sale_rec_def py_str_def d apostrophes_def)
  have l2: "menu_line cash_rec = map of_char
       (''INSERT INTO menu (No, Item1, PriceByGoldForW, PriceByGoldForM, PriceByGoldForI, PriceByCashForW, PriceByCashForM, PriceByCashForI, Period1, Volume1) VALUES (''
        @ apostrophes ''8'' @ '', '' @ apostrophes ''8'' @ '', ''
        @ apostrophes ''0'' @ '', '' @ apostrophes ''0'' @ '', '' @ apostrophes ''0'' @ '', ''
        @ apostrophes ''5'' @ '', '' @ apostrophes ''15'' @ '', '' @ apostrophes ''90'' @ '', ''
        @ apostrophes ''86400'' @ '', '' @ apostrophes ''1'' @ '');'' @ [CHR 0x0A])"
    unfolding menu_line_text
    by (simp add: spec_gated_def sale_rec_def cash_rec_def py_str_def d apostrophes_def)
  have "export_sql_menu [sale_rec, hidden_rec, cash_rec]
          = banner @ menu_line sale_rec @ menu_line cash_rec"
    by (simp add: export_sql_menu_def export_sql_menu_loop_data s)
  then show ?thesis
    unfolding l1 l2 by (simp add: banner_def lit_def)
qed

text \<open>
  C4. The menu report is the banner followed by one line for every record whose
  \<open>show_in_shop\<close> field is 1, in the order of the records, and by nothing for any other
  record. The line of a record is the \<^verbatim>\<open>INSERT\<close> statement with ten values between
  apostrophes: the avatar code twice; for weekly, monthly and eternal the stored gold
  price when \<open>enable_sale_gold\<close> and the duration's \<open>sell\<close> flag are both 1 and 0
  otherwise; the three cash prices by the same rule on \<open>enable_sale_cash\<close>; 86400; and 1.
  For the three records above the report is the banner and two lines: the hidden record
  has none, the first record has its weekly and eternal gold prices and 0 elsewhere,
  and the record whose \<open>enable_sale_gold\<close> is 5 has 0 for gold and its three cash prices.
\<close>

theorem menu_export_gating:
  "export_sql_menu rs
     = banner @ concat (map menu_line (filter (\<lambda>r. data r ''show_in_shop'' = Some (VInt 1)) rs))
   \<and> menu_line r =
     map of_char ''INSERT INTO menu (No, Item1, PriceByGoldForW, PriceByGoldForM, PriceByGoldForI, PriceByCashForW, PriceByCashForM, PriceByCashForI, Period1, Volume1) VALUES (''
     @ [39] @ py_str (case data r ''avatar_code'' of Some v \<Rightarrow> v | None \<Rightarrow> VInt 0) @ [39]
     @ map of_char '', ''
     @ [39] @ py_str (case data r ''avatar_code'' of Some v \<Rightarrow> v | None \<Rightarrow> VInt 0) @ [39]
     @ map of_char '', ''
     @ [39] @ py_str (spec_gated r ''price_weekly_gold'' ''enable_sale_gold'' ''sell_weekly'') @ [39]
     @ map of_char '', ''
     @ [39] @ py_str (spec_gated r ''price_monthly_gold'' ''enable_sale_gold'' ''sell_monthly'') @ [39]
     @ map of_char '', ''
     @ [39] @ py_str (spec_gated r ''price_eternal_gold'' ''enable_sale_gold'' ''sell_eternal'') @ [39]
     @ map of_char '', ''
     @ [39] @ py_str (spec_gated r ''price_weekly_cash'' ''enable_sale_cash'' ''sell_weekly'') @ [39]
     @ map of_char '', ''
     @ [39] @ py_str (spec_gated r ''price_monthly_cash'' ''enable_sale_cash'' ''sell_monthly'') @ [39]
     @ map of_char '', ''
     @ [39] @ py_str (spec_gated r ''price_eternal_cash'' ''enable_sale_cash'' ''sell_eternal'') @ [39]
     @ map of_char '', '' @ [39] @ map of_char ''86400'' @ [39]
     @ map of_char '', '' @ [39] @ map of_char ''1'' @ [39]
     @ map of_char '');'' @ [10]
   \<and> export_sql_menu [sale_rec, hidden_rec, cash_rec] =
     map of_char
       (''#################################'' @ [CHR 0x0A]
        @ ''###   BY FIRELORDZ(Agasready)   ###'' @ [CHR 0x0A]
        @ ''#################################'' @ [CHR 0x0A, CHR 0x0A]
        @ ''INSERT INTO menu (No, Item1, PriceByGoldForW, PriceByGoldForM, PriceByGoldForI, PriceByCashForW, PriceByCashForM, PriceByCashForI, Period1, Volume1) VALUES (''
        @ apostrophes ''1207'' @ '', '' @ apostrophes ''1207'' @ '', ''
        @ apostrophes ''500'' @ '', '' @ apostrophes ''0'' @ '', '' @ apostrophes ''9000'' @ '', ''
        @ apostrophes ''0'' @ '', '' @ apostrophes ''0'' @ '', '' @ apostrophes ''0'' @ '', ''
        @ apostrophes ''86400'' @ '', '' @ apostrophes ''1'' @ '');'' @ [CHR 0x0A]
        @ ''INSERT INTO menu (No, Item1, PriceByGoldForW, PriceByGoldForM, PriceByGoldForI, PriceByCashForW, PriceByCashForM, PriceByCashForI, Period1, Volume1) VALUES (''
        @ apostrophes ''8'' @ '', '' @ apostrophes ''8'' @ '', ''
        @ apostrophes ''0'' @ '', '' @ apostrophes ''0'' @ '', '' @ apostrophes ''0'' @ '', ''
        @ apostrophes ''5'' @ '', '' @ apostrophes ''15'' @ '', '' @ apostrophes ''90'' @ '', ''
        @ apostrophes ''86400'' @ '', '' @ apostrophes ''1'' @ '');'' @ [CHR 0x0A])"
proof (intro conjI)
  show "export_sql_menu rs
     = banner @ concat (map menu_line (filter (\<lambda>r. data r ''show_in_shop'' = Some (VInt 1)) rs))"
    by (simp add: export_sql_menu_def export_sql_menu_loop_data)
qed (rule menu_line_text, rule menu_report_three_records)

section \<open>Records without a visibility flag\<close>

lemma export_sql_item_loop_skip:
  "\<not> shown r \<Longrightarrow>
   export_sql_item_loop (rs1 @ r # rs2) sql = export_sql_item_loop (rs1 @ rs2) sql"
  by (induction rs1 arbitrary: sql) (simp_all add: shown_def split: sum.splits)

lemma not_shown_None: "data r ''show_in_shop'' = Some VNone \<Longrightarrow> \<not> shown r"
  by (simp add: shown_def get0_def)

lemma not_shown_zero: "data r ''show_in_shop'' = Some (VInt 0) \<Longrightarrow> \<not> shown r"
  by (simp add: shown_def get0_def)

lemma exports_skip:
  assumes "\<not> shown r"
  shows "export_sql_menu (rs1 @ r # rs2) = export_sql_menu (rs1 @ rs2)"
    and "export_sql_item (rs1 @ r # rs2) = export_sql_item (rs1 @ rs2)"
  using assms
  by (simp_all add: export_sql_menu_def export_sql_menu_loop_eq export_sql_item_def
      export_sql_item_loop_skip)

text \<open>
  C10. A record whose \<open>show_in_shop\<close> is \<^verbatim>\<open>None\<close> gets no line in the menu report and
  none in the item report: both reports are what they are without the record, and what
  they are with a record whose \<open>show_in_shop\<close> is 0 in its place.
\<close>

theorem absent_show_in_shop_skipped:
  assumes "data r ''show_in_shop'' = Some VNone" and "data r0 ''show_in_shop'' = Some (VInt 0)"
  shows "export_sql_menu (rs1 @ r # rs2) = export_sql_menu (rs1 @ rs2)
         \<and> export_sql_item (rs1 @ r # rs2) = export_sql_item (rs1 @ rs2)
         \<and> export_sql_menu (rs1 @ r # rs2) = export_sql_menu (rs1 @ r0 # rs2)
         \<and> export_sql_item (rs1 @ r # rs2) = export_sql_item (rs1 @ r0 # rs2)"
  using exports_skip [OF not_shown_None [OF assms(1)], of rs1 rs2]
    exports_skip [OF not_shown_zero [OF assms(2)], of rs1 rs2]
  by simp

definition rec_absent :: Record where
  "rec_absent = \<lparr>index = 0, rtype = Normal, raw_off = 4,
                  data = [''show_in_shop'' \<mapsto> VNone, ''price_eternal_gold'' \<mapsto> VInt 5]\<rparr>"

definition rec_hidden :: Record where
  "rec_hidden = \<lparr>index = 0, rtype = Normal, raw_off = 4,
                  data = [''show_in_shop'' \<mapsto> VInt 0]\<rparr>"

theorem absent_show_in_shop_skipped_witness:
  "export_sql_menu [rec_absent] = banner
   \<and> export_sql_item [rec_absent] = Inr banner
   \<and> export_sql_menu [rec_hidden] = banner"
proof -
  have a: "data rec_absent ''show_in_shop'' = Some VNone" by (simp add: rec_absent_def)
  have b: "data rec_hidden ''show_in_shop'' = Some (VInt 0)" by (simp add: rec_hidden_def)
  note t = absent_show_in_shop_skipped [OF a b, of "[]" "[]"]
  have e: "export_sql_menu [] = banner" "export_sql_item [] = Inr banner"
    by (simp_all add: export_sql_menu_def export_sql_item_def)
  from t e show ?thesis by auto
qed

section \<open>The refund of the item report\<close>

lemmas refund_eval = refund_def int_truediv_def round_frac_def round_pos_def bitlen.simps
  round_half_even_def overflows_def float_mul_int_def float_floor_def Let_def

definition rec205 :: Record where
  "rec205 = \<lparr>index = 0, rtype = Normal, raw_off = 4,
             data = [''avatar_code'' \<mapsto> VInt 7, ''show_in_shop'' \<mapsto> VInt 1,
                     ''price_eternal_gold'' \<mapsto> VInt 205]\<rparr>"

text \<open>
  C5. The refund of the item report is computed in floats, \<^verbatim>\<open>(p / 100) * 60\<close>, and is
  not always \<open>p * 60 div 100\<close>: for \<open>p = 205\<close> the quotient 2.05 is rounded down to the
  nearest float, the product is the float just below 123, and the report carries 122 in
  its four refund columns. The two examples of the specification, 1000 and 999, do give
  600 and 599.
\<close>

theorem item_refund_205:
  "refund (VInt 205) = Inr 122 \<and> (205 * 60) div 100 = (123 :: int)
   \<and> export_sql_item [rec205] = Inr (banner @ item_line rec205 122)
   \<and> refund (VInt 1000) = Inr 600 \<and> refund (VInt 999) = Inr 599"
proof -
  have a: "refund (VInt 205) = Inr 122" by (simp add: refund_eval)
  have b: "refund (VInt 1000) = Inr 600" by (simp add: refund_eval)
  have c: "refund (VInt 999) = Inr 599" by (simp add: refund_eval)
  have d: "export_sql_item [rec205] = Inr (banner @ item_line rec205 122)"
    by (simp add: export_sql_item_def get0_def rec205_def a)
  from a b c d show ?thesis by simp
qed

section \<open>Every parsed field lies within the buffer\<close>

text \<open>The number of bytes a field of a record map takes.\<close>

definition width :: "ftype \<Rightarrow> nat option \<Rightarrow> nat" where
  "width t L = (case t of U32 \<Rightarrow> 4 | I32 \<Rightarrow> 4 | U8 \<Rightarrow> 1
                | Str \<Rightarrow> (case L of Some n \<Rightarrow> n | None \<Rightarrow> 0))"

lemma fields_fit_NORMAL: "\<forall>(k, o', t, L) \<in> set NORMAL_MAP. o' + width t L \<le> 195"
  by (simp add: NORMAL_MAP_def width_def)

lemma fields_fit_EXITEM: "\<forall>(k, o', t, L) \<in> set EXITEM_MAP. o' + width t L \<le> 195"
  by (simp add: EXITEM_MAP_def width_def)

lemma fields_fit:
  "(k, o', t, L) \<in> set (map_of_rtype ty) \<Longrightarrow> o' + width t L \<le> 195"
  using fields_fit_NORMAL fields_fit_EXITEM
  by (cases ty) (auto simp: map_of_rtype_def)

lemma parse_nth:
  "i < length (parse d) \<Longrightarrow>
   parse d ! i = parse_record d (detect_record_size (int (length d))) i"
  by (simp add: parse_def)

lemma record_in_range:
  assumes "i < length (parse d)"
  shows "4 + i * detect_record_size (int (length d)) + detect_record_size (int (length d))
           \<le> length d"
proof -
  define s where "s = detect_record_size (int (length d))"
  define c where "c = parse_count d"
  have s: "0 < int s"
    using detect_record_size_cases [of "int (length d)"]
    by (auto simp: s_def NORMAL_SIZE_def EXITEM_SIZE_def)
  from assms have "int i + 1 \<le> c" by (simp add: length_parse c_def)
  then have "(int i + 1) * int s \<le> c * int s"
    using s by (simp add: mult_right_mono)
  also have "c * int s \<le> int (length d) - 4"
    unfolding c_def parse_count_def s_def [symmetric]
    using s by (metis div_mult_mod_eq add_le_cancel_left add.right_neutral pos_mod_sign
        add_increasing2 order_refl)
  finally have "int (4 + i * s + s) \<le> int (length d)"
    by (simp add: algebra_simps)
  then show ?thesis unfolding s_def by linarith
qed

lemma raw_off_parse_record: "raw_off (parse_record d rsize i) = 4 + i * rsize"
  by (simp add: parse_record_def Let_def)

lemma index_parse_record: "index (parse_record d rsize i) = i"
  by (simp add: parse_record_def Let_def)

lemma size_ge_195: "195 \<le> detect_record_size t"
  using detect_record_size_cases [of t] by (auto simp: NORMAL_SIZE_def EXITEM_SIZE_def)

lemma parsed_field_in_range:
  assumes "i < length (parse d)"
      and "(k, o', t, L) \<in> set (map_of_rtype (rtype (parse d ! i)))"
  shows "raw_off (parse d ! i) + o' + width t L \<le> length d"
  using record_in_range [OF assms(1)] fields_fit [OF assms(2)]
    size_ge_195 [of "int (length d)"]
  by (simp add: parse_nth [OF assms(1)] raw_off_parse_record)

lemma parsed_field_value:
  assumes "i < length (parse d)"
      and "(k, o', t, L) \<in> set (map_of_rtype (rtype (parse d ! i)))"
  shows "data (parse d ! i) k = Some (parse_field d (raw_off (parse d ! i) + o') k t L)"
  using assms data_parse_record_in [of k o' t L d "detect_record_size (int (length d))" i]
  by (simp add: parse_nth raw_off_parse_record)

lemma parse_field_U8:
  "oo < length d \<Longrightarrow>
   parse_field d oo k U8 L
     = VInt (if k = ''show_in_shop'' then (if d ! oo \<noteq> 0 then 1 else 0) else uint (d ! oo))"
  by (simp add: parse_field_def parse_field_try_def read_u8_def uint_0_iff)

lemma parsed_U8:
  assumes "i < length (parse d)"
      and "(k, o', U8, L) \<in> set (map_of_rtype (rtype (parse d ! i)))"
  shows "data (parse d ! i) k
         = Some (VInt (if k = ''show_in_shop''
                       then (if d ! (raw_off (parse d ! i) + o') \<noteq> 0 then 1 else 0)
                       else uint (d ! (raw_off (parse d ! i) + o'))))"
proof -
  from parsed_field_in_range [OF assms] have "raw_off (parse d ! i) + o' < length d"
    by (simp add: width_def)
  then show ?thesis
    by (simp add: parsed_field_value [OF assms] parse_field_U8)
qed

lemma save_field_try_U8:
  "save_field_try P b oo k U8 L v =
     (if length b \<le> oo then Inl (IndexError, b)
      else if k = ''show_in_shop'' then Inr (b[oo := (if v \<noteq> VInt 0 then 1 else 0)])
      else case py_int P v of Inl e \<Rightarrow> Inl (e, b)
           | Inr n \<Rightarrow> Inr (b[oo := word_of_int (n mod 256)]))"
  by (auto simp: save_field_try_def write_u8_def split: sum.splits)

section \<open>The flag bytes\<close>

text \<open>
  C3, as the code has it. Of the single-byte fields only \<open>show_in_shop\<close> is normalised:
  a parsed record holds 1 for a nonzero byte and 0 for a zero byte, and \<^verbatim>\<open>save\<close>
  writes 1 for every value other than 0 and 0 for 0. The other single-byte fields
  (\<open>sell_weekly\<close>, \<open>sell_monthly\<close>, \<open>sell_eternal\<close>, \<open>enable_sale_gold\<close>,
  \<open>enable_sale_cash\<close>) hold the raw byte after parsing, and \<^verbatim>\<open>save\<close> writes their
  value modulo 256.
\<close>

theorem boolean_coercion_show_in_shop:
  "(i < length (parse d) \<and> (k, o', U8, L) \<in> set (map_of_rtype (rtype (parse d ! i)))
      \<longrightarrow> data (parse d ! i) k
         = Some (VInt (if k = ''show_in_shop''
                       then (if d ! (raw_off (parse d ! i) + o') \<noteq> 0 then 1 else 0)
                       else uint (d ! (raw_off (parse d ! i) + o')))))
   \<and> (oo < length b
      \<longrightarrow> save_field_try P b oo ''show_in_shop'' U8 L v
             = Inr (b[oo := (if v \<noteq> VInt 0 then 1 else 0)])
        \<and> (k \<noteq> ''show_in_shop''
            \<longrightarrow> save_field_try P b oo k U8 L (VInt n) = Inr (b[oo := word_of_int (n mod 256)])))"
  by (auto simp: parsed_U8 save_field_try_U8 py_int_def)

theorem boolean_coercion_show_in_shop_witness:
  "data (parse ((replicate 648 0)[39 := 5]) ! 0) ''show_in_shop'' = Some (VInt 1)
   \<and> data (parse ((replicate 648 0)[39 := 5]) ! 0) ''sell_monthly'' = Some (VInt 0)
   \<and> save_field_try (\<lambda>s. None) (replicate 648 0) 39 ''show_in_shop'' U8 None (VInt 5)
       = Inr ((replicate 648 0)[39 := 1])
   \<and> save_field_try (\<lambda>s. None) (replicate 648 0) 41 ''sell_weekly'' U8 None (VInt 261)
       = Inr ((replicate 648 0)[41 := 5])"
proof -
  let ?d = "(replicate 648 0)[39 := 5] :: bytes"
  have len: "length (parse ?d) = 1"
    by (simp add: parse_def parse_count_def detect_record_size_def NORMAL_SIZE_def EXITEM_SIZE_def)
  then have ty: "rtype (parse ?d ! 0) = Normal" and off: "raw_off (parse ?d ! 0) = 4"
    by (simp_all add: parse_nth rtype_parse_record raw_off_parse_record
        detect_record_size_def NORMAL_SIZE_def)
  have a: "data (parse ?d ! 0) ''show_in_shop'' = Some (VInt 1)"
    using boolean_coercion_show_in_shop [of 0 ?d "''show_in_shop''" 35 None 0 "[]"] len
    by (simp add: ty off map_of_rtype_def NORMAL_MAP_def)
  have b: "data (parse ?d ! 0) ''sell_monthly'' = Some (VInt 0)"
    using boolean_coercion_show_in_shop [of 0 ?d "''sell_monthly''" 60 None 0 "[]"] len
    by (simp add: ty off map_of_rtype_def NORMAL_MAP_def)
  have c: "save_field_try (\<lambda>s. None) (replicate 648 0) 39 ''show_in_shop'' U8 None (VInt 5)
       = Inr ((replicate 648 0)[39 := 1])"
    using boolean_coercion_show_in_shop [of 0 "[]" "''sell_weekly''" 0 None 39 "replicate 648 0"
        "\<lambda>s. None" "VInt 5" 0]
    by simp
  have e: "save_field_try (\<lambda>s. None) (replicate 648 0) 41 ''sell_weekly'' U8 None (VInt 261)
       = Inr ((replicate 648 0)[41 := 5])"
    using boolean_coercion_show_in_shop [of 0 "[]" "''sell_weekly''" 0 None 41 "replicate 648 0"
        "\<lambda>s. None" "VInt 5" 261]
    by simp
  from a b c e show ?thesis by simp
qed

text \<open>C3 as stated fails for the sell and enable flags: a raw byte 5 in \<open>sell_weekly\<close>
  is parsed as 5, and 5 is what \<^verbatim>\<open>save\<close> writes back.\<close>

lemma length_parse_648: "length (parse ((replicate 648 0)[41 := 5])) = 1"
  by (simp add: parse_def parse_count_def detect_record_size_def NORMAL_SIZE_def EXITEM_SIZE_def)

lemma rtype_parse_648: "rtype (parse ((replicate 648 0)[41 := 5]) ! 0) = Normal"
  using length_parse_648
  by (simp add: parse_nth rtype_parse_record detect_record_size_def NORMAL_SIZE_def)

lemma raw_off_parse_648: "raw_off (parse ((replicate 648 0)[41 := 5]) ! 0) = 4"
  using length_parse_648 by (simp add: parse_nth raw_off_parse_record)

theorem boolean_coercion_counterexample:
  "data (parse ((replicate 648 0)[41 := 5]) ! 0) ''sell_weekly'' = Some (VInt 5)
   \<and> save_field_try (\<lambda>s. None) (replicate 648 0) 41 ''sell_weekly'' U8 None (VInt 5)
       = Inr ((replicate 648 0)[41 := 5])"
proof -
  have "(''sell_weekly'', 37, U8, None) \<in> set (map_of_rtype (rtype (parse ((replicate 648 0)[41 := 5]) ! 0)))"
    by (simp add: rtype_parse_648 map_of_rtype_def NORMAL_MAP_def)
  from parsed_U8 [OF _ this] length_parse_648
  have "data (parse ((replicate 648 0)[41 := 5]) ! 0) ''sell_weekly'' = Some (VInt 5)"
    by (simp add: raw_off_parse_648)
  then show ?thesis
    by (simp add: save_field_try_U8 py_int_def)
qed

section \<open>Fields the parser cannot decode\<close>

lemma parse_field_out_of_range: "length d \<le> oo \<Longrightarrow> parse_field d oo k t L = VNone"
  by (simp add: parse_field_def parse_field_try_def)

lemma parse_field_failure: "parse_field_try d oo k t L = Inl e \<Longrightarrow> parse_field d oo k t L = VNone"
  by (simp add: parse_field_def)



















section \<open>Edits of stat fields on Ex-item records\<close>

text \<open>Whether an outcome shows the user an error: an error box, or an exception.\<close>

definition shows_error :: "outcome \<Rightarrow> bool" where
  "shows_error oc =
     (case oc of ErrorContinue \<Rightarrow> True | ErrorReturn \<Rightarrow> True | Raised e \<Rightarrow> True | _ \<Rightarrow> False)"

text \<open>An Ex-item row and a Normal row of the table.\<close>

definition exitem_row :: Record where
  "exitem_row = \<lparr>index = 0, rtype = ExItem, raw_off = 4,
           data = [''avatar_code'' \<mapsto> VInt 7, ''attack'' \<mapsto> VNone]\<rparr>"

definition normal_row :: Record where
  "normal_row = \<lparr>index = 1, rtype = Normal, raw_off = 688,
          data = [''avatar_code'' \<mapsto> VInt 8, ''attack'' \<mapsto> VInt 2]\<rparr>"

lemma apply_batch_rec_exitem:
  "f \<in> set STAT_FIELDS \<Longrightarrow> rtype r = ExItem \<Longrightarrow> apply_batch_rec P f v r = (Skipped, r)"
  by (simp add: apply_batch_rec_def)

lemma rtype_apply_batch_rec: "rtype (snd (apply_batch_rec P f v r)) = rtype r"
  by (simp add: apply_batch_rec_def set_data_def split: sum.splits option.splits)

lemma apply_batch_loop_keeps_exitem:
  assumes "f \<in> set STAT_FIELDS"
  shows "length (fst (apply_batch_loop P f v rs sels)) = length rs
         \<and> (\<forall>i < length rs. rtype (rs ! i) = ExItem
               \<longrightarrow> fst (apply_batch_loop P f v rs sels) ! i = rs ! i)"
proof (induction sels arbitrary: rs)
  case Nil
  then show ?case by simp
next
  case (Cons idx sels)
  show ?case
  proof (cases "length rs \<le> idx")
    case True
    then show ?thesis by simp
  next
    case False
    obtain oc r' where ab: "apply_batch_rec P f v (rs ! idx) = (oc, r')"
      by (cases "apply_batch_rec P f v (rs ! idx)") auto
    let ?rs2 = "rs[idx := r']"
    have keep: "\<forall>i < length rs. rtype (rs ! i) = ExItem \<longrightarrow> ?rs2 ! i = rs ! i"
    proof (intro allI impI)
      fix i assume i: "i < length rs" "rtype (rs ! i) = ExItem"
      show "?rs2 ! i = rs ! i"
      proof (cases "i = idx")
        case True
        with i assms ab have "r' = rs ! idx" by (simp add: apply_batch_rec_exitem)
        with True show ?thesis by simp
      next
        case False
        then show ?thesis by simp
      qed
    qed
    from Cons.IH [of ?rs2] have ih: "length (fst (apply_batch_loop P f v ?rs2 sels)) = length rs"
      "\<forall>i < length rs. rtype (?rs2 ! i) = ExItem
          \<longrightarrow> fst (apply_batch_loop P f v ?rs2 sels) ! i = ?rs2 ! i"
      by simp_all
    have rec: "length (fst (apply_batch_loop P f v ?rs2 sels)) = length rs
         \<and> (\<forall>i < length rs. rtype (rs ! i) = ExItem
               \<longrightarrow> fst (apply_batch_loop P f v ?rs2 sels) ! i = rs ! i)"
      using ih keep by auto
    show ?thesis
      using False ab rec
      by (cases oc) (auto split: prod.splits)
  qed
qed

lemma apply_batch_loop_skips:
  assumes "f \<in> set STAT_FIELDS" and "\<forall>r \<in> set rs. rtype r = ExItem"
      and "\<forall>i \<in> set sels. i < length rs"
  shows "apply_batch_loop P f v rs sels = (rs, map (\<lambda>i. Skipped) sels)"
  using assms(3)
proof (induction sels)
  case Nil
  then show ?case by simp
next
  case (Cons i sels)
  then have i: "i < length rs" by simp
  with assms(2) have "rtype (rs ! i) = ExItem" by simp
  with assms(1) have "apply_batch_rec P f v (rs ! i) = (Skipped, rs ! i)"
    by (simp add: apply_batch_rec_def)
  with Cons i show ?case by simp
qed

text \<open>
  C8, as the code has it. The program has no field-set operation of its own: the two
  edit handlers write into the record's dictionary. An edit of a Normal-only stat field
  never changes an Ex-item record, in either handler and whatever the value and the
  selection. The cell editor shows an error box. The batch editor shows no error: with a
  value and a selection it passes over every Ex-item row without any message and goes on
  with the next row; without a value (after stripping) it shows a warning, and without a
  selection an information box, and looks at no row.
\<close>

theorem stat_field_edit_on_exitem:
  assumes "f \<in> set STAT_FIELDS"
  shows "(rtype r = ExItem \<longrightarrow> finish P f entry r = (ErrorReturn, r))
         \<and> length (fst (apply_batch P f entry rs sels)) = length rs
         \<and> (\<forall>i < length rs. rtype (rs ! i) = ExItem
               \<longrightarrow> fst (apply_batch P f entry rs sels) ! i = rs ! i)
         \<and> ((\<forall>r' \<in> set rs. rtype r' = ExItem) \<and> (\<forall>i \<in> set sels. i < length rs)
              \<longrightarrow> apply_batch P f entry rs sels
                  = (rs, if py_strip entry = [] then [Warned]
                         else if sels = [] then [Informed]
                         else map (\<lambda>i. Skipped) sels))"
proof (intro conjI impI)
  assume "rtype r = ExItem"
  with assms show "finish P f entry r = (ErrorReturn, r)"
    by (simp add: finish_def Let_def)
next
  show "length (fst (apply_batch P f entry rs sels)) = length rs"
    using apply_batch_loop_keeps_exitem [OF assms, of P "py_strip entry" rs sels]
    by (simp add: apply_batch_def Let_def)
  show "\<forall>i < length rs. rtype (rs ! i) = ExItem
               \<longrightarrow> fst (apply_batch P f entry rs sels) ! i = rs ! i"
    using apply_batch_loop_keeps_exitem [OF assms, of P "py_strip entry" rs sels]
    by (simp add: apply_batch_def Let_def)
next
  assume a: "(\<forall>r' \<in> set rs. rtype r' = ExItem) \<and> (\<forall>i \<in> set sels. i < length rs)"
  from assms have "f \<noteq> []" by (auto simp: STAT_FIELDS_def)
  moreover from a assms
  have "apply_batch_loop P f (py_strip entry) rs sels = (rs, map (\<lambda>i. Skipped) sels)"
    by (intro apply_batch_loop_skips) simp_all
  ultimately show "apply_batch P f entry rs sels
                  = (rs, if py_strip entry = [] then [Warned]
                         else if sels = [] then [Informed]
                         else map (\<lambda>i. Skipped) sels)"
    by (simp add: apply_batch_def Let_def)
qed

lemma py_strip_5: "py_strip (lit '' 5 '') = lit ''5''"
  by (simp add: py_strip_def lit_def is_space_def)

lemma py_strip_blank: "py_strip (lit ''  '') = []"
  by (simp add: py_strip_def lit_def is_space_def)

lemma lit_5_nonempty: "lit ''5'' \<noteq> []"
  by (simp add: lit_def)

theorem stat_field_edit_on_exitem_witness:
  "finish (\<lambda>s. Some 5) ''attack'' (lit '' 5 '') exitem_row = (ErrorReturn, exitem_row)
   \<and> fst (apply_batch (\<lambda>s. Some 5) ''attack'' (lit '' 5 '') [exitem_row, normal_row] [1, 0]) ! 0 = exitem_row
   \<and> apply_batch (\<lambda>s. Some 5) ''attack'' (lit '' 5 '') [exitem_row, exitem_row] [1, 0]
       = ([exitem_row, exitem_row], [Skipped, Skipped])
   \<and> apply_batch (\<lambda>s. Some 5) ''attack'' (lit ''  '') [exitem_row, exitem_row] [1, 0]
       = ([exitem_row, exitem_row], [Warned])
   \<and> apply_batch (\<lambda>s. Some 5) ''attack'' (lit '' 5 '') [exitem_row, exitem_row] []
       = ([exitem_row, exitem_row], [Informed])"
proof -
  have f: "''attack'' \<in> set STAT_FIELDS" by (simp add: STAT_FIELDS_def)
  note t = stat_field_edit_on_exitem [OF f, where P = "\<lambda>s. Some 5"]
  have ty: "rtype exitem_row = ExItem" by (simp add: exitem_row_def)
  have ex: "\<forall>r' \<in> set [exitem_row, exitem_row]. rtype r' = ExItem" by (simp add: ty)
  have 1: "finish (\<lambda>s. Some 5) ''attack'' (lit '' 5 '') exitem_row = (ErrorReturn, exitem_row)"
    using t [where r = exitem_row and entry = "lit '' 5 ''", THEN conjunct1] ty by blast
  have "0 < length [exitem_row, normal_row] \<and> rtype ([exitem_row, normal_row] ! 0) = ExItem" by (simp add: ty)
  with t [where rs = "[exitem_row, normal_row]" and sels = "[1, 0]" and entry = "lit '' 5 ''",
      THEN conjunct2, THEN conjunct2, THEN conjunct1]
  have 2: "fst (apply_batch (\<lambda>s. Some 5) ''attack'' (lit '' 5 '') [exitem_row, normal_row] [1, 0]) ! 0 = exitem_row"
    by (metis nth_Cons_0)
  have 3: "apply_batch (\<lambda>s. Some 5) ''attack'' (lit '' 5 '') [exitem_row, exitem_row] [1, 0]
       = ([exitem_row, exitem_row], [Skipped, Skipped])"
    using t [where rs = "[exitem_row, exitem_row]" and sels = "[1, 0]" and entry = "lit '' 5 ''",
        THEN conjunct2, THEN conjunct2, THEN conjunct2] ex
    by (simp add: py_strip_5 lit_5_nonempty)
  have 4: "apply_batch (\<lambda>s. Some 5) ''attack'' (lit ''  '') [exitem_row, exitem_row] [1, 0]
       = ([exitem_row, exitem_row], [Warned])"
    using t [where rs = "[exitem_row, exitem_row]" and sels = "[1, 0]" and entry = "lit ''  ''",
        THEN conjunct2, THEN conjunct2, THEN conjunct2] ex
    by (simp add: py_strip_blank)
  have 5: "apply_batch (\<lambda>s. Some 5) ''attack'' (lit '' 5 '') [exitem_row, exitem_row] []
       = ([exitem_row, exitem_row], [Informed])"
    using t [where rs = "[exitem_row, exitem_row]" and sels = "[]" and entry = "lit '' 5 ''",
        THEN conjunct2, THEN conjunct2, THEN conjunct2] ex
    by (simp add: py_strip_5 lit_5_nonempty)
  from 1 2 3 4 5 show ?thesis by simp
qed

text \<open>C8 as stated fails in the batch editor: the edit is dropped without an error.\<close>

theorem stat_field_batch_counterexample:
  "apply_batch (\<lambda>s. Some 5) ''attack'' (lit ''5'') [exitem_row] [0] = ([exitem_row], [Skipped])
   \<and> \<not> shows_error Skipped"
proof -
  have "py_strip (lit ''5'') = lit ''5''" by (simp add: py_strip_def lit_def is_space_def)
  moreover have "apply_batch_loop (\<lambda>s. Some 5) ''attack'' (lit ''5'') [exitem_row] [0] = ([exitem_row], [Skipped])"
    by (simp add: apply_batch_rec_def STAT_FIELDS_def exitem_row_def)
  moreover have "lit ''5'' \<noteq> []" by (simp add: lit_def)
  ultimately show ?thesis
    by (simp add: apply_batch_def Let_def shows_error_def)
qed

section \<open>Writes never shorten the buffer\<close>

lemma slice_assign_in:
  "lo \<le> length b \<Longrightarrow>
   slice_assign b lo (lo + n) new = take lo b @ new @ drop (lo + n) b"
  by (auto simp: slice_assign_def Let_def min_def max_def)

lemma write_str_eq:
  assumes "oo \<le> length b"
  shows "write_str b oo len s
         = take oo b @ (take len (utf8_encode_ignore s)
             @ replicate (len - length (take len (utf8_encode_ignore s))) 0)
           @ drop (oo + len) b"
proof -
  let ?b1 = "take oo b @ replicate len 0 @ drop (oo + len) b"
  have 1: "slice_assign b oo (oo + len) (replicate len 0) = ?b1"
    by (rule slice_assign_in [OF assms])
  have 2: "oo \<le> length ?b1" using assms by simp
  have 3: "take oo ?b1 = take oo b" using assms by simp
  have 4: "drop (oo + len) ?b1 = drop (oo + len) b" using assms by simp
  show ?thesis
    unfolding write_str_def Let_def 1
    by (simp only: slice_assign_in [OF 2] 3 4)
qed

lemma length_write_str_ge: "oo \<le> length b \<Longrightarrow> length b \<le> length (write_str b oo len s)"
  by (simp add: write_str_eq)

lemma length_write_str:
  "oo + len \<le> length b \<Longrightarrow> length (write_str b oo len s) = length b"
  by (simp add: write_str_eq)

lemma length_le_bytes [simp]: "length (le_bytes n v) = n"
  by (induction n arbitrary: v) simp_all

lemma length_write_u32_le: "write_u32_le b oo v = Inr b' \<Longrightarrow> length b' = length b"
  by (auto simp: write_u32_le_def split: if_splits)

lemma length_write_i32_le: "write_i32_le b oo v = Inr b' \<Longrightarrow> length b' = length b"
  by (auto simp: write_i32_le_def split: if_splits)

lemma length_write_u8: "write_u8 b oo v = Inr b' \<Longrightarrow> length b' = length b"
  by (auto simp: write_u8_def split: if_splits)

lemma save_field_try_Inr:
  assumes "save_field_try P b oo k t L v = Inr b'"
  shows "oo < length b \<and> length b \<le> length b'"
proof -
  from assms have lt: "oo < length b"
    by (auto simp: save_field_try_def split: if_splits)
  have "length b \<le> length b'"
  proof (cases t)
    case U32
    with assms lt show ?thesis
      by (auto simp: save_field_try_def split: sum.splits dest: length_write_u32_le)
  next
    case I32
    with assms lt show ?thesis
      by (auto simp: save_field_try_def split: sum.splits dest: length_write_i32_le)
  next
    case U8
    with assms lt show ?thesis
      by (auto simp: save_field_try_def split: sum.splits if_splits dest: length_write_u8)
  next
    case Str
    with assms lt show ?thesis
      by (auto simp: save_field_try_def length_write_str_ge split: option.splits)
  qed
  with lt show ?thesis by simp
qed

lemma save_fields_None:
  "save_fields P r b m = (b', None) \<Longrightarrow>
   length b \<le> length b'
   \<and> (\<forall>(k, o', t, L) \<in> set m. k \<in> dom (data r) \<longrightarrow> raw_off r + o' < length b')"
proof (induction m arbitrary: b)
  case Nil
  then show ?case by simp
next
  case (Cons f m)
  obtain k o' t L where f: "f = (k, o', t, L)" by (cases f) auto
  show ?case
  proof (cases "data r k")
    case None
    with Cons.prems f have "save_fields P r b m = (b', None)" by simp
    from Cons.IH [OF this] None f show ?thesis by auto
  next
    case (Some v)
    with Cons.prems f obtain b1 where
      1: "save_field_try P b (raw_off r + o') k t L v = Inr b1"
      and 2: "save_fields P r b1 m = (b', None)"
      by (auto split: sum.splits)
    from save_field_try_Inr [OF 1] Cons.IH [OF 2] f show ?thesis by auto
  qed
qed

lemma save_records_None:
  "save_records P b rs = (b', None) \<Longrightarrow>
   length b \<le> length b'
   \<and> (\<forall>r \<in> set rs. \<forall>(k, o', t, L) \<in> set (map_of_rtype (rtype r)).
          k \<in> dom (data r) \<longrightarrow> raw_off r + o' < length b')"
proof (induction rs arbitrary: b)
  case Nil
  then show ?case by simp
next
  case (Cons r rs)
  then obtain b1 where 1: "save_fields P r b (map_of_rtype (rtype r)) = (b1, None)"
    and 2: "save_records P b1 rs = (b', None)"
    by (auto split: prod.splits option.splits)
  from save_fields_None [OF 1] Cons.IH [OF 2] show ?case by fastforce
qed

lemma save_failure_env: "fst (save P e m p) \<noteq> None \<Longrightarrow> snd (snd (save P e m p)) = e"
  by (auto simp: save_def split: option.splits if_splits prod.splits)

lemma save_records_failure:
  "snd (save_records P (buf m) (records m)) \<noteq> None \<Longrightarrow> fst (save P e m p) \<noteq> None"
  by (auto simp: save_def split: option.splits if_splits prod.splits)

lemma save_success:
  assumes "fst (save P e m p) = None"
  shows "\<exists>out. out_path m p = Some out \<and> out \<noteq> []
           \<and> snd (save_records P (buf m) (records m)) = None
           \<and> snd (snd (save P e m p))
               = e\<lparr>files := (files e)(out \<mapsto> fst (save_records P (buf m) (records m)))\<rparr>
           \<and> fst (snd (save P e m p)) = m\<lparr>buf := fst (save_records P (buf m) (records m))\<rparr>"
  using assms
  by (auto simp: save_def split: option.splits if_splits prod.splits)

section \<open>Saving writes the file last\<close>

text \<open>
  A field whose offset is at or beyond the end of the buffer makes its re-encoding raise
  with the buffer untouched, and any exception of the re-encoding loop makes \<^verbatim>\<open>save\<close>
  fail; a \<^verbatim>\<open>save\<close> that fails, for whatever reason, leaves every file as it was. A
  \<^verbatim>\<open>save\<close> that succeeds has re-encoded every field present in every record, each
  starting inside the buffer, and has then written the whole buffer to the target path,
  and nothing else.
\<close>

lemma save_failure_leaves_files:
  "(length b \<le> oo \<longrightarrow> save_field_try P b oo k t L v = Inl (IndexError, b))
   \<and> (save_records P b rs = (b', None) \<longrightarrow>
        (\<forall>r \<in> set rs. \<forall>(k, o', t, L) \<in> set (map_of_rtype (rtype r)).
            k \<in> dom (data r) \<longrightarrow> raw_off r + o' < length b'))
   \<and> (snd (save_records P (buf m) (records m)) \<noteq> None \<longrightarrow> fst (save P e m p) \<noteq> None)
   \<and> (fst (save P e m p) \<noteq> None \<longrightarrow> snd (snd (save P e m p)) = e)
   \<and> (fst (save P e m p) = None \<longrightarrow>
        (\<exists>out. out_path m p = Some out
           \<and> snd (save_records P (buf m) (records m)) = None
           \<and> snd (snd (save P e m p))
               = e\<lparr>files := (files e)(out \<mapsto> fst (save_records P (buf m) (records m)))\<rparr>))"
proof (intro conjI impI)
  assume "length b \<le> oo"
  then show "save_field_try P b oo k t L v = Inl (IndexError, b)"
    by (simp add: save_field_try_def)
next
  assume "save_records P b rs = (b', None)"
  from save_records_None [OF this]
  show "\<forall>r \<in> set rs. \<forall>(k, o', t, L) \<in> set (map_of_rtype (rtype r)).
            k \<in> dom (data r) \<longrightarrow> raw_off r + o' < length b'"
    by simp
next
  assume "snd (save_records P (buf m) (records m)) \<noteq> None"
  then show "fst (save P e m p) \<noteq> None" by (rule save_records_failure)
next
  assume "fst (save P e m p) \<noteq> None"
  then show "snd (snd (save P e m p)) = e" by (rule save_failure_env)
next
  assume "fst (save P e m p) = None"
  from save_success [OF this]
  show "\<exists>out. out_path m p = Some out
           \<and> snd (save_records P (buf m) (records m)) = None
           \<and> snd (snd (save P e m p))
               = e\<lparr>files := (files e)(out \<mapsto> fst (save_records P (buf m) (records m)))\<rparr>"
    by blast
qed

section \<open>UTF-8: decoding what was encoded\<close>

lemma unat_byte_of: "n < 256 \<Longrightarrow> unat (byte_of n) = n"
  by (simp add: byte_of_def unat_of_nat take_bit_nat_eq_self)

lemma decomp3:
  fixes c :: nat
  shows "c = 4096 * (c div 4096) + 64 * (c div 64 mod 64) + c mod 64"
proof -
  have "c div 4096 = c div 64 div 64" by (simp add: div_mult2_eq)
  then show ?thesis
    using div_mult_mod_eq [of "c div 64" 64] div_mult_mod_eq [of c 64] by linarith
qed

lemma decomp4:
  fixes c :: nat
  shows "c = 262144 * (c div 262144) + 4096 * (c div 4096 mod 64)
             + 64 * (c div 64 mod 64) + c mod 64"
proof -
  have "c div 262144 = c div 4096 div 64" by (simp add: div_mult2_eq)
  then show ?thesis
    using div_mult_mod_eq [of "c div 4096" 64] decomp3 [of c] by linarith
qed

lemma utf8_step_1:
  assumes "c < 0x80"
  shows "utf8_step (byte_of c # rest) = Some (c, 1)"
  using assms by (simp add: utf8_step_def unat_byte_of)

lemma utf8_step_2:
  assumes "0x80 \<le> c" "c < 0x800"
  shows "utf8_step (byte_of (0xC0 + c div 64) # byte_of (0x80 + c mod 64) # rest) = Some (c, 2)"
proof -
  define q r where "q = c div 64" and "r = c mod 64"
  have c: "c = 64 * q + r" and r: "r < 64" by (simp_all add: q_def r_def)
  have a: "0xC0 + q < 256" "0x80 + r < 256" using assms c r by linarith+
  have b: "0xC2 \<le> 0xC0 + q" "0xC0 + q \<le> 0xDF" using assms c r by linarith+
  have d: "0x80 + r \<le> 0xBF" using r by linarith
  have e: "q * 64 + r = c" using c by simp
  show ?thesis
    unfolding q_def [symmetric] r_def [symmetric]
    using b d e
    by (simp add: utf8_step_def unat_byte_of [OF a(1)] unat_byte_of [OF a(2)] is_cont_def)
qed

lemma utf8_step_3:
  assumes "0x800 \<le> c" "c < 0x10000" "\<not> is_surrogate c"
  shows "utf8_step (byte_of (0xE0 + c div 4096) # byte_of (0x80 + c div 64 mod 64)
                    # byte_of (0x80 + c mod 64) # rest) = Some (c, 3)"
proof -
  define p q r where "p = c div 4096" and "q = c div 64 mod 64" and "r = c mod 64"
  have c: "c = 4096 * p + 64 * q + r" unfolding p_def q_def r_def by (rule decomp3)
  have q: "q < 64" and r: "r < 64" by (simp_all add: q_def r_def)
  have s: "c < 0xD800 \<or> 0xDFFF < c" using assms(3) by (auto simp: is_surrogate_def)
  have a: "0xE0 + p < 256" "0x80 + q < 256" "0x80 + r < 256" using assms c q r by linarith+
  have b: "0xE0 \<le> 0xE0 + p" "0xE0 + p \<le> 0xEF" using assms c q r by linarith+
  have d: "0x80 + q \<le> 0xBF" "0x80 + r \<le> 0xBF" using q r by linarith+
  have e0: "p = 0 \<longrightarrow> 0x20 \<le> q" using assms c q r by auto
  have ed: "p = 13 \<longrightarrow> q \<le> 0x1F" using s c q r by auto
  have rr: "p * 4096 + q * 64 + r = c" using c by simp
  show ?thesis
    unfolding p_def [symmetric] q_def [symmetric] r_def [symmetric]
    using b d e0 ed rr
    by (simp add: utf8_step_def unat_byte_of [OF a(1)] unat_byte_of [OF a(2)]
        unat_byte_of [OF a(3)] is_cont_def)
qed

lemma utf8_step_4:
  assumes "0x10000 \<le> c" "c < 0x110000"
  shows "utf8_step (byte_of (0xF0 + c div 262144) # byte_of (0x80 + c div 4096 mod 64)
                    # byte_of (0x80 + c div 64 mod 64) # byte_of (0x80 + c mod 64) # rest)
         = Some (c, 4)"
proof -
  define n p q r where "n = c div 262144" and "p = c div 4096 mod 64"
    and "q = c div 64 mod 64" and "r = c mod 64"
  have c: "c = 262144 * n + 4096 * p + 64 * q + r"
    unfolding n_def p_def q_def r_def by (rule decomp4)
  have p: "p < 64" and q: "q < 64" and r: "r < 64" by (simp_all add: p_def q_def r_def)
  have a: "0xF0 + n < 256" "0x80 + p < 256" "0x80 + q < 256" "0x80 + r < 256"
    using assms c p q r by linarith+
  have b: "0xF0 \<le> 0xF0 + n" "0xF0 + n \<le> 0xF4" using assms c p q r by linarith+
  have d: "0x80 + p \<le> 0xBF" "0x80 + q \<le> 0xBF" "0x80 + r \<le> 0xBF" using p q r by linarith+
  have e0: "n = 0 \<longrightarrow> 0x10 \<le> p" using assms c p q r by auto
  have e4: "n = 4 \<longrightarrow> p \<le> 0x0F" using assms c p q r by auto
  have rr: "n * 262144 + p * 4096 + q * 64 + r = c" using c by simp
  show ?thesis
    unfolding n_def [symmetric] p_def [symmetric] q_def [symmetric] r_def [symmetric]
    using b d e0 e4 rr
    by (simp add: utf8_step_def unat_byte_of [OF a(1)] unat_byte_of [OF a(2)]
        unat_byte_of [OF a(3)] unat_byte_of [OF a(4)] is_cont_def)
qed

lemma utf8_cp_step:
  assumes "c < 0x110000" "utf8_cp c = Some bs"
  shows "utf8_step (bs @ rest) = Some (c, length bs)"
proof -
  consider "c < 0x80" | "0x80 \<le> c" "c < 0x800"
    | "0x800 \<le> c" "c < 0x10000" | "0x10000 \<le> c" by linarith
  then show ?thesis
  proof cases
    case 1
    with assms show ?thesis by (auto simp: utf8_cp_def utf8_step_1)
  next
    case 2
    with assms show ?thesis by (auto simp: utf8_cp_def utf8_step_2)
  next
    case 3
    with assms have "\<not> is_surrogate c" by (auto simp: utf8_cp_def split: if_splits)
    with 3 assms show ?thesis by (auto simp: utf8_cp_def utf8_step_3)
  next
    case 4
    then have "\<not> is_surrogate c" by (simp add: is_surrogate_def)
    with 4 assms show ?thesis by (auto simp: utf8_cp_def utf8_step_4)
  qed
qed

lemma utf8_cp_nonempty: "utf8_cp c = Some bs \<Longrightarrow> bs \<noteq> []"
  by (auto simp: utf8_cp_def split: if_splits)

lemma utf8_decode_append:
  assumes "c < 0x110000" "utf8_cp c = Some bs"
  shows "utf8_decode (bs @ rest) = map_option ((#) c) (utf8_decode rest)"
  using utf8_cp_step [OF assms, of rest] utf8_cp_nonempty [OF assms(2)]
  by (subst utf8_decode.simps) simp

lemma utf8_cp_None: "utf8_cp c = None \<longleftrightarrow> is_surrogate c"
  by (auto simp: utf8_cp_def is_surrogate_def)

lemma utf8_roundtrip:
  "\<forall>c \<in> set s. c < 0x110000 \<Longrightarrow>
   utf8_decode (utf8_encode_ignore s) = Some (filter (\<lambda>c. \<not> is_surrogate c) s)"
proof (induction s)
  case Nil
  then show ?case by (simp add: utf8_decode.simps)
next
  case (Cons c s)
  show ?case
  proof (cases "utf8_cp c")
    case None
    then have "is_surrogate c" by (simp add: utf8_cp_None)
    with None Cons show ?thesis by simp
  next
    case (Some bs)
    then have "\<not> is_surrogate c" using utf8_cp_None [of c] by simp
    with Some Cons utf8_decode_append [of c bs "utf8_encode_ignore s"] show ?thesis by simp
  qed
qed

lemma byte_of_nonzero: "n < 256 \<Longrightarrow> n \<noteq> 0 \<Longrightarrow> byte_of n \<noteq> 0"
  using unat_byte_of [of n] by auto

lemma utf8_cp_nonzero:
  assumes "c \<noteq> 0" "c < 0x110000" "utf8_cp c = Some bs"
  shows "0 \<notin> set bs"
proof -
  have m: "\<And>x. x < 64 \<Longrightarrow> byte_of (128 + x) \<noteq> 0" by (rule byte_of_nonzero) simp_all
  have 1: "c < 0x80 \<Longrightarrow> byte_of c \<noteq> 0" using assms(1) by (intro byte_of_nonzero) simp_all
  have 2: "c < 0x800 \<Longrightarrow> byte_of (192 + c div 64) \<noteq> 0"
    by (rule byte_of_nonzero) simp_all
  have 3: "c < 0x10000 \<Longrightarrow> byte_of (224 + c div 4096) \<noteq> 0"
    by (rule byte_of_nonzero) simp_all
  have 4: "byte_of (240 + c div 262144) \<noteq> 0"
    using assms(2) by (intro byte_of_nonzero) simp_all
  from assms(3) 1 2 3 4 m [of "c mod 64"] m [of "c div 64 mod 64"] m [of "c div 4096 mod 64"]
  show ?thesis by (auto simp: utf8_cp_def split: if_splits)
qed

lemma utf8_encode_nonzero:
  "\<forall>c \<in> set s. c \<noteq> 0 \<and> c < 0x110000 \<Longrightarrow> 0 \<notin> set (utf8_encode_ignore s)"
proof (induction s)
  case Nil
  then show ?case by simp
next
  case (Cons c s)
  then show ?case
    using utf8_cp_nonzero [of c] by (cases "utf8_cp c") auto
qed

lemma utf8_encode_ignore_append:
  "utf8_encode_ignore (s1 @ s2) = utf8_encode_ignore s1 @ utf8_encode_ignore s2"
  by (induction s1) (simp_all split: option.splits)

lemma takeWhile_pad:
  "takeWhile (\<lambda>x. x \<noteq> (0 :: byte)) (raw @ replicate n 0) = takeWhile (\<lambda>x. x \<noteq> 0) raw"
proof (induction raw)
  case Nil
  show ?case by (cases n) simp_all
next
  case (Cons x raw)
  then show ?case by simp
qed

lemma read_str_write_str:
  assumes "oo \<le> length b"
  shows "read_str (write_str b oo len s) oo len
         = (let cut = takeWhile (\<lambda>x. x \<noteq> 0) (take len (utf8_encode_ignore s))
            in case utf8_decode cut of Some t \<Rightarrow> t | None \<Rightarrow> latin1_decode cut)"
proof -
  let ?raw = "take len (utf8_encode_ignore s)"
  let ?fld = "?raw @ replicate (len - length ?raw) 0"
  have l: "length ?fld = len" by simp
  have "drop oo (write_str b oo len s) = ?fld @ drop (oo + len) b"
    using assms by (simp add: write_str_eq)
  then have "take len (drop oo (write_str b oo len s)) = ?fld"
    using l by simp
  then show ?thesis
    by (simp only: read_str_def takeWhile_pad)
qed

text \<open>A Python string: code points up to U+10FFFF. One that \<^verbatim>\<open>write_str\<close> and
  \<^verbatim>\<open>read_str\<close> can carry has no NUL and no surrogate.\<close>

definition plain_str :: "pystr \<Rightarrow> bool" where
  "plain_str s \<longleftrightarrow> (\<forall>c \<in> set s. c \<noteq> 0 \<and> c < 0x110000 \<and> \<not> is_surrogate c)"

lemma read_str_write_str_plain:
  assumes "oo \<le> length b" "plain_str s"
  shows "read_str (write_str b oo len s) oo len
         = (case utf8_decode (take len (utf8_encode_ignore s)) of
              Some t \<Rightarrow> t | None \<Rightarrow> latin1_decode (take len (utf8_encode_ignore s)))"
proof -
  from assms(2) have "0 \<notin> set (utf8_encode_ignore s)"
    by (intro utf8_encode_nonzero) (simp add: plain_str_def)
  then have "0 \<notin> set (take len (utf8_encode_ignore s))"
    by (meson in_set_takeD)
  then have tw: "takeWhile (\<lambda>x. x \<noteq> 0) (take len (utf8_encode_ignore s))
             = take len (utf8_encode_ignore s)"
    by (intro takeWhile_eq_all_conv [THEN iffD2]) auto
  show ?thesis
    unfolding read_str_write_str [OF assms(1)] Let_def tw by (rule refl)
qed

lemma utf8_roundtrip_plain: "plain_str s \<Longrightarrow> utf8_decode (utf8_encode_ignore s) = Some s"
proof -
  assume p: "plain_str s"
  then have "filter (\<lambda>c. \<not> is_surrogate c) s = s"
    by (simp add: plain_str_def)
  with p utf8_roundtrip [of s] show ?thesis by (simp add: plain_str_def)
qed

lemma read_str_write_str_fits:
  assumes "oo \<le> length b" "plain_str s" "length (utf8_encode_ignore s) \<le> len"
  shows "read_str (write_str b oo len s) oo len = s"
  using assms by (simp add: read_str_write_str_plain utf8_roundtrip_plain)

lemma read_str_write_str_cut:
  assumes "oo \<le> length b" "plain_str (s1 @ s2)" "length (utf8_encode_ignore s1) = len"
  shows "read_str (write_str b oo len (s1 @ s2)) oo len = s1"
proof -
  from assms(2) have "plain_str s1" by (simp add: plain_str_def)
  then show ?thesis
    using assms
    by (simp add: read_str_write_str_plain utf8_encode_ignore_append utf8_roundtrip_plain)
qed

section \<open>Fixed-width strings\<close>

text \<open>
  C9, as the code has it. For an offset inside the buffer (or at its end), \<^verbatim>\<open>write_str\<close>
  replaces the \<open>len\<close> bytes at the offset by the first \<open>len\<close> bytes of the string's
  UTF-8 encoding followed by zero bytes, exactly \<open>len\<close> bytes in all, and leaves the
  bytes before and after as they were (the buffer grows when the field reaches beyond
  its end). A string without NUL and without surrogate code points whose encoding has at
  most \<open>len\<close> bytes is read back as it was. A longer such string is read back as the
  decoding of the first \<open>len\<close> bytes of its encoding, UTF-8 if they are well-formed and
  Latin-1 otherwise; when the cut falls between two characters this is the string up to
  the cut.
\<close>

theorem fixed_string_write_read:
  assumes "oo \<le> length b"
  shows "write_str b oo len s
           = take oo b
             @ (take len (utf8_encode_ignore s)
                @ replicate (len - length (take len (utf8_encode_ignore s))) 0)
             @ drop (oo + len) b
         \<and> length (take len (utf8_encode_ignore s)
                    @ replicate (len - length (take len (utf8_encode_ignore s))) 0) = len
         \<and> (plain_str s \<and> length (utf8_encode_ignore s) \<le> len
              \<longrightarrow> read_str (write_str b oo len s) oo len = s)
         \<and> (plain_str s
              \<longrightarrow> read_str (write_str b oo len s) oo len
                  = (case utf8_decode (take len (utf8_encode_ignore s)) of
                       Some t \<Rightarrow> t
                     | None \<Rightarrow> latin1_decode (take len (utf8_encode_ignore s))))
         \<and> (plain_str (s1 @ s2) \<and> length (utf8_encode_ignore s1) = len
              \<longrightarrow> read_str (write_str b oo len (s1 @ s2)) oo len = s1)"
proof (intro conjI impI)
  show "write_str b oo len s
           = take oo b
             @ (take len (utf8_encode_ignore s)
                @ replicate (len - length (take len (utf8_encode_ignore s))) 0)
             @ drop (oo + len) b"
    by (rule write_str_eq [OF assms])
  show "length (take len (utf8_encode_ignore s)
                    @ replicate (len - length (take len (utf8_encode_ignore s))) 0) = len"
    by simp
next
  assume "plain_str s \<and> length (utf8_encode_ignore s) \<le> len"
  then show "read_str (write_str b oo len s) oo len = s"
    using assms by (intro read_str_write_str_fits) simp_all
next
  assume "plain_str s"
  then show "read_str (write_str b oo len s) oo len
                  = (case utf8_decode (take len (utf8_encode_ignore s)) of
                       Some t \<Rightarrow> t
                     | None \<Rightarrow> latin1_decode (take len (utf8_encode_ignore s)))"
    by (rule read_str_write_str_plain [OF assms])
next
  assume "plain_str (s1 @ s2) \<and> length (utf8_encode_ignore s1) = len"
  then show "read_str (write_str b oo len (s1 @ s2)) oo len = s1"
    using assms by (intro read_str_write_str_cut) simp_all
qed

lemma utf8_encode_Hero: "utf8_encode_ignore (lit ''Hero'') = [72, 101, 114, 111]"
  by (simp add: lit_def utf8_cp_def byte_of_def)

lemma plain_str_Hero: "plain_str (lit ''Hero'')"
  by (simp add: lit_def plain_str_def is_surrogate_def)

theorem fixed_string_write_read_witness:
  "write_str (replicate 40 7) 12 19 (lit ''Hero'')
     = replicate 12 7 @ [72, 101, 114, 111] @ replicate 15 0 @ replicate 9 7
   \<and> read_str (write_str (replicate 40 7) 12 19 (lit ''Hero'')) 12 19 = lit ''Hero''
   \<and> read_str (write_str (replicate 40 7) 12 2 [97, 98, 99]) 12 2 = [97, 98]
   \<and> read_str (write_str (replicate 40 7) 12 2 [97, 8364]) 12 2 = [97, 226]"
proof -
  have le: "(12 :: nat) \<le> length (replicate 40 (7 :: byte))" by simp
  note h = fixed_string_write_read [OF le, where len = 19 and s = "lit ''Hero''"
      and ?s1.0 = "[]" and ?s2.0 = "[0]"]
  note t = fixed_string_write_read [OF le, where len = 2 and s = "[97, 8364]"
      and ?s1.0 = "[97, 98]" and ?s2.0 = "[99]"]
  have 1: "write_str (replicate 40 7) 12 19 (lit ''Hero'')
     = replicate 12 7 @ [72, 101, 114, 111] @ replicate 15 0 @ replicate 9 7"
    using h [THEN conjunct1] by (simp add: utf8_encode_Hero)
  have 2: "read_str (write_str (replicate 40 7) 12 19 (lit ''Hero'')) 12 19 = lit ''Hero''"
    using h [THEN conjunct2, THEN conjunct2, THEN conjunct1]
    by (simp add: utf8_encode_Hero plain_str_Hero)
  have 3: "read_str (write_str (replicate 40 7) 12 2 [97, 98, 99]) 12 2 = [97, 98]"
    using t [THEN conjunct2, THEN conjunct2, THEN conjunct2, THEN conjunct2]
    by (simp add: plain_str_def is_surrogate_def utf8_cp_def)
  have e: "utf8_encode_ignore [97, 8364] = [97, 226, 130, 172]"
    by (simp add: utf8_cp_def byte_of_def is_surrogate_def)
  have d: "utf8_decode [97, 226 :: byte] = None"
    by (simp add: utf8_decode.simps utf8_step_def)
  have p: "plain_str [97, 8364]"
    by (simp add: plain_str_def is_surrogate_def)
  have 4: "read_str (write_str (replicate 40 7) 12 2 [97, 8364]) 12 2 = [97, 226]"
    using t [THEN conjunct2, THEN conjunct2, THEN conjunct2, THEN conjunct1] p
    unfolding e by (simp add: d latin1_decode_def)
  from 1 2 3 4 show ?thesis by simp
qed

text \<open>C9 as stated fails for a string with a NUL character: its encoding fits the field,
  and it is read back only up to the NUL.\<close>

theorem fixed_string_nul_counterexample:
  "length (utf8_encode_ignore [97, 0, 98]) \<le> 19
   \<and> read_str (write_str (replicate 40 7) 12 19 [97, 0, 98]) 12 19 = [97]"
proof -
  have e: "utf8_encode_ignore [97, 0, 98] = [97, 0, 98]"
    by (simp add: utf8_cp_def byte_of_def)
  have d: "utf8_decode [97 :: byte] = Some [97]"
    by (simp add: utf8_decode.simps utf8_step_def)
  have "read_str (write_str (replicate 40 7) 12 19 [97, 0, 98]) 12 19
        = (let cut = takeWhile (\<lambda>x. x \<noteq> 0) (take 19 (utf8_encode_ignore [97, 0, 98]))
           in case utf8_decode cut of Some t \<Rightarrow> t | None \<Rightarrow> latin1_decode cut)"
    by (rule read_str_write_str) simp
  also have "\<dots> = [97]"
    unfolding e by (simp add: d)
  finally show ?thesis
    unfolding e by simp
qed

text \<open>A lone surrogate is dropped by the encoder, so it is not read back either.\<close>

lemma fixed_string_surrogate_example:
  "read_str (write_str (replicate 40 7) 12 19 [97, 55296]) 12 19 = [97]"
proof -
  have e: "utf8_encode_ignore [97, 55296] = [97]"
    by (simp add: utf8_cp_def byte_of_def is_surrogate_def)
  have d: "utf8_decode [97 :: byte] = Some [97]"
    by (simp add: utf8_decode.simps utf8_step_def)
  have "read_str (write_str (replicate 40 7) 12 19 [97, 55296]) 12 19
        = (let cut = takeWhile (\<lambda>x. x \<noteq> 0) (take 19 (utf8_encode_ignore [97, 55296]))
           in case utf8_decode cut of Some t \<Rightarrow> t | None \<Rightarrow> latin1_decode cut)"
    by (rule read_str_write_str) simp
  also have "\<dots> = [97]"
    unfolding e by (simp add: d)
  finally show ?thesis .
qed

section \<open>A string field that reaches beyond the buffer\<close>







section \<open>Saving and parsing again\<close>

lemma le_val_le_bytes: "le_val (le_bytes n v) = v mod 256 ^ n"
proof (induction n arbitrary: v)
  case 0
  then show ?case by simp
next
  case (Suc n)
  have "uint (word_of_int v :: byte) = v mod 256" by (simp add: uint_word_of_int)
  moreover have "v mod (256 * 256 ^ n) = 256 * (v div 256 mod 256 ^ n) + v mod 256"
    by (rule zmod_zmult2_eq) simp
  ultimately show ?case by (simp add: Suc.IH)
qed

lemma splice_length:
  "length X = n \<Longrightarrow> oo + n \<le> length b \<Longrightarrow>
   length (take oo b @ X @ drop (oo + n) b) = length b"
  by simp

lemma splice_nth:
  assumes "length X = n" "oo + n \<le> length b" "j < oo \<or> oo + n \<le> j" "j < length b"
  shows "(take oo b @ X @ drop (oo + n) b) ! j = b ! j"
proof (cases "j < oo")
  case True
  with assms show ?thesis by (simp add: nth_append)
next
  case False
  with assms have j: "oo + n \<le> j" by simp
  have l: "length (take oo b) = oo" using assms by simp
  have n1: "\<not> j < oo" using j by linarith
  have n2: "\<not> j - oo < n" using j by linarith
  have "(take oo b @ X @ drop (oo + n) b) ! j = (X @ drop (oo + n) b) ! (j - oo)"
    by (subst nth_append) (simp only: l n1 if_False)
  also have "\<dots> = drop (oo + n) b ! (j - oo - n)"
    by (subst nth_append) (simp only: assms(1) n2 if_False)
  also have "\<dots> = b ! j" using j assms by simp
  finally show ?thesis .
qed

lemma splice_seg:
  assumes "length X = n" "oo + n \<le> length b"
  shows "take n (drop oo (take oo b @ X @ drop (oo + n) b)) = X"
  using assms by simp

lemma seg_eq_if_agree:
  assumes "length b1 = length b2" "oo + w \<le> length b1"
      and "\<forall>j. oo \<le> j \<and> j < oo + w \<longrightarrow> b1 ! j = b2 ! j"
  shows "take w (drop oo b1) = take w (drop oo b2)"
  using assms by (intro nth_equalityI) simp_all

lemma parse_field_seg:
  assumes "oo + width t L \<le> length b" "0 < width t L"
  shows "parse_field b oo k t L =
     (case t of
        U32 \<Rightarrow> VInt (le_val (take (width t L) (drop oo b)))
      | I32 \<Rightarrow> (let v = le_val (take (width t L) (drop oo b))
                in VInt (if 2 ^ 31 \<le> v then v - 2 ^ 32 else v))
      | U8 \<Rightarrow> (let val = uint (hd (take (width t L) (drop oo b)))
               in if k = ''show_in_shop'' then VInt (if val \<noteq> 0 then 1 else 0) else VInt val)
      | Str \<Rightarrow> (let s = takeWhile (\<lambda>x. x \<noteq> 0) (take (width t L) (drop oo b))
                in VStr (case utf8_decode s of Some t \<Rightarrow> t | None \<Rightarrow> latin1_decode s)))"
proof (cases t)
  case U32
  with assms show ?thesis
    by (simp add: parse_field_def parse_field_try_def read_u32_le_def width_def)
next
  case I32
  with assms show ?thesis
    by (simp add: parse_field_def parse_field_try_def read_i32_le_def width_def Let_def)
next
  case U8
  with assms have "hd (take (width t L) (drop oo b)) = b ! oo"
    by (simp add: width_def hd_drop_conv_nth)
  with U8 assms show ?thesis
    by (simp add: parse_field_def parse_field_try_def read_u8_def width_def Let_def)
next
  case Str
  with assms obtain len where L: "L = Some len" by (cases L) (auto simp: width_def)
  with Str assms show ?thesis
    by (simp add: parse_field_def parse_field_try_def read_str_def width_def Let_def)
qed

lemma parse_field_cong:
  assumes "oo + width t L \<le> length b1" "oo + width t L \<le> length b2" "0 < width t L"
      and "take (width t L) (drop oo b1) = take (width t L) (drop oo b2)"
  shows "parse_field b1 oo k t L = parse_field b2 oo k t L"
  by (simp only: parse_field_seg [OF assms(1,3)] parse_field_seg [OF assms(2,3)] assms(4))

text \<open>What a field of a given type can carry through \<^verbatim>\<open>save\<close> and \<^verbatim>\<open>_parse\<close>: an
  integer in the range of the type (0 or 1 for \<open>show_in_shop\<close>), or a string without NUL
  and surrogates whose encoding fits the field.\<close>

definition valid_value :: "string \<Rightarrow> ftype \<Rightarrow> nat option \<Rightarrow> pyval \<Rightarrow> bool" where
  "valid_value k t L v =
     (case v of
        VInt n \<Rightarrow>
          (case t of
             U32 \<Rightarrow> 0 \<le> n \<and> n < 2 ^ 32
           | I32 \<Rightarrow> - (2 ^ 31) \<le> n \<and> n < 2 ^ 31
           | U8 \<Rightarrow> (if k = ''show_in_shop'' then n = 0 \<or> n = 1 else 0 \<le> n \<and> n < 256)
           | Str \<Rightarrow> False)
      | VStr s \<Rightarrow>
          t = Str \<and> plain_str s
          \<and> (case L of Some len \<Rightarrow> length (utf8_encode_ignore s) \<le> len | None \<Rightarrow> False)
      | VNone \<Rightarrow> False)"

lemma save_field_roundtrip:
  assumes "valid_value k t L v" "oo + width t L \<le> length b" "0 < width t L"
  shows "\<exists>b'. save_field_try P b oo k t L v = Inr b' \<and> length b' = length b
           \<and> (\<forall>j < length b. j < oo \<or> oo + width t L \<le> j \<longrightarrow> b' ! j = b ! j)
           \<and> parse_field b' oo k t L = v"
proof (cases t)
  case U32
  with assms obtain n where v: "v = VInt n" and n: "0 \<le> n" "n < 2 ^ 32"
    by (cases v) (auto simp: valid_value_def)
  let ?b' = "take oo b @ le_bytes 4 n @ drop (oo + 4) b"
  from assms U32 have r: "oo + 4 \<le> length b" by (simp add: width_def)
  have w: "width t L = 4" using U32 by (simp add: width_def)
  have 1: "save_field_try P b oo k t L v = Inr ?b'"
    using U32 v n r by (simp add: save_field_try_def py_int_def write_u32_le_def)
  have 2: "length ?b' = length b" using r by (intro splice_length) simp_all
  have 3: "\<forall>j < length b. j < oo \<or> oo + width t L \<le> j \<longrightarrow> ?b' ! j = b ! j"
    unfolding w using r by (intro allI impI splice_nth) simp_all
  have "take 4 (drop oo ?b') = le_bytes 4 n" using r by (intro splice_seg) simp_all
  moreover have "n mod 256 ^ 4 = n" using n by simp
  ultimately have 4: "parse_field ?b' oo k t L = v"
    using r 2 U32 v
    by (simp add: parse_field_def parse_field_try_def read_u32_le_def le_val_le_bytes
        del: le_bytes.simps)
  from 1 2 3 4 show ?thesis by blast
next
  case I32
  with assms obtain n where v: "v = VInt n" and n: "- (2 ^ 31) \<le> n" "n < 2 ^ 31"
    by (cases v) (auto simp: valid_value_def)
  let ?b' = "take oo b @ le_bytes 4 (n mod 2 ^ 32) @ drop (oo + 4) b"
  from assms I32 have r: "oo + 4 \<le> length b" by (simp add: width_def)
  have w: "width t L = 4" using I32 by (simp add: width_def)
  have 1: "save_field_try P b oo k t L v = Inr ?b'"
    using I32 v n r by (simp add: save_field_try_def py_int_def write_i32_le_def)
  have 2: "length ?b' = length b" using r by (intro splice_length) simp_all
  have 3: "\<forall>j < length b. j < oo \<or> oo + width t L \<le> j \<longrightarrow> ?b' ! j = b ! j"
    unfolding w using r by (intro allI impI splice_nth) simp_all
  have s: "take 4 (drop oo ?b') = le_bytes 4 (n mod 2 ^ 32)"
    using r by (intro splice_seg) simp_all
  have m: "n mod 2 ^ 32 mod 256 ^ 4 = n mod 2 ^ 32" by simp
  have d: "(if 2 ^ 31 \<le> n mod 2 ^ 32 then n mod 2 ^ 32 - 2 ^ 32 else n mod 2 ^ 32) = n"
  proof (cases "0 \<le> n")
    case True
    with n have "n mod 2 ^ 32 = n" by simp
    with n show ?thesis by simp
  next
    case False
    with n have "(n + 2 ^ 32) mod 2 ^ 32 = n + 2 ^ 32"
      by (intro mod_pos_pos_trivial) simp_all
    then have "n mod 2 ^ 32 = n + 2 ^ 32" by simp
    with False n show ?thesis by simp
  qed
  have 4: "parse_field ?b' oo k t L = v"
    using r 2 I32 v d
    by (simp add: parse_field_def parse_field_try_def read_i32_le_def s le_val_le_bytes m
        Let_def del: le_bytes.simps split: if_splits)
  from 1 2 3 4 show ?thesis by blast
next
  case U8
  with assms obtain n where v: "v = VInt n"
    and n: "if k = ''show_in_shop'' then n = 0 \<or> n = 1 else 0 \<le> n \<and> n < 256"
    by (cases v) (auto simp: valid_value_def)
  from assms U8 have r: "oo < length b" by (simp add: width_def)
  have w: "width t L = 1" using U8 by (simp add: width_def)
  let ?x = "if k = ''show_in_shop'' then (if v \<noteq> VInt 0 then 1 else 0)
            else word_of_int (n mod 256) :: byte"
  let ?b' = "b[oo := ?x]"
  have 1: "save_field_try P b oo k t L v = Inr ?b'"
    using U8 v r by (simp add: save_field_try_U8 py_int_def)
  have 2: "length ?b' = length b" by simp
  have 3: "\<forall>j < length b. j < oo \<or> oo + width t L \<le> j \<longrightarrow> ?b' ! j = b ! j"
    unfolding w by auto
  have x: "?b' ! oo = ?x" using r by simp
  have u: "\<not> k = ''show_in_shop'' \<Longrightarrow> uint (word_of_int (n mod 256) :: byte) = n"
    using n by (simp add: uint_word_of_int)
  have pf: "parse_field ?b' oo k U8 L
        = VInt (if k = ''show_in_shop'' then (if ?b' ! oo \<noteq> 0 then 1 else 0)
                else uint (?b' ! oo))"
    using r by (intro parse_field_U8) simp
  have 4: "parse_field ?b' oo k t L = v"
    unfolding U8 pf x using v n u by (auto split: if_splits)
  from 1 2 3 4 show ?thesis by blast
next
  case Str
  with assms obtain s len where v: "v = VStr s" and L: "L = Some len"
    and p: "plain_str s" and e: "length (utf8_encode_ignore s) \<le> len"
    by (cases v; cases L) (auto simp: valid_value_def)
  have w: "width t L = len" using Str L by (simp add: width_def)
  from assms w have r: "oo + len \<le> length b" "oo < length b" "0 < len" by simp_all
  let ?b' = "write_str b oo len s"
  have t: "(if py_truthy v then py_str v else []) = s"
    using v by (simp add: py_truthy_def py_str_def)
  have 1: "save_field_try P b oo k t L v = Inr ?b'"
    using Str L r by (simp add: save_field_try_def t)
  have 2: "length ?b' = length b" using r by (simp add: length_write_str)
  have eq: "?b' = take oo b @ (take len (utf8_encode_ignore s)
             @ replicate (len - length (take len (utf8_encode_ignore s))) 0)
           @ drop (oo + len) b"
    using r by (intro write_str_eq) simp
  have 3: "\<forall>j < length b. j < oo \<or> oo + width t L \<le> j \<longrightarrow> ?b' ! j = b ! j"
    unfolding w eq using r by (intro allI impI splice_nth) simp_all
  have "read_str ?b' oo len = s"
    using r p e by (intro read_str_write_str_fits) simp_all
  then have 4: "parse_field ?b' oo k t L = v"
    using r 2 Str L v by (simp add: parse_field_def parse_field_try_def)
  from 1 2 3 4 show ?thesis by blast
qed

text \<open>No two fields of a record map overlap.\<close>

fun disjoint_fields :: "fieldspec list \<Rightarrow> bool" where
  "disjoint_fields [] = True"
| "disjoint_fields ((k, o', t, L) # m) =
     ((\<forall>(k2, o2, t2, L2) \<in> set m. o' + width t L \<le> o2 \<or> o2 + width t2 L2 \<le> o')
      \<and> disjoint_fields m)"

lemma disjoint_fields_NORMAL: "disjoint_fields NORMAL_MAP"
  by (simp add: NORMAL_MAP_def width_def)

lemma disjoint_fields_EXITEM: "disjoint_fields EXITEM_MAP"
  by (simp add: EXITEM_MAP_def width_def)

lemma disjoint_fields_map_of_rtype: "disjoint_fields (map_of_rtype ty)"
  by (cases ty) (simp_all add: map_of_rtype_def disjoint_fields_NORMAL disjoint_fields_EXITEM)

lemma widths_pos: "(k, o', t, L) \<in> set (map_of_rtype ty) \<Longrightarrow> 0 < width t L"
  by (cases ty) (auto simp: map_of_rtype_def NORMAL_MAP_def EXITEM_MAP_def width_def)

text \<open>For one field of one record: it lies within a buffer of \<open>n\<close> bytes and holds a
  valid value; a position is outside of it; the buffer decodes to the record's value.\<close>

definition field_ok :: "Record \<Rightarrow> nat \<Rightarrow> fieldspec \<Rightarrow> bool" where
  "field_ok r n f =
     (case f of (k, o', t, L) \<Rightarrow>
        0 < width t L \<and> raw_off r + o' + width t L \<le> n
        \<and> (\<exists>v. data r k = Some v \<and> valid_value k t L v))"

definition outside :: "Record \<Rightarrow> fieldspec \<Rightarrow> nat \<Rightarrow> bool" where
  "outside r f j =
     (case f of (k, o', t, L) \<Rightarrow> j < raw_off r + o' \<or> raw_off r + o' + width t L \<le> j)"

definition field_read :: "Record \<Rightarrow> bytes \<Rightarrow> fieldspec \<Rightarrow> bool" where
  "field_read r b f =
     (case f of (k, o', t, L) \<Rightarrow> data r k = Some (parse_field b (raw_off r + o') k t L))"

lemma field_read_cong:
  assumes "field_read r b1 f" "field_ok r (length b1) f" "length b2 = length b1"
      and "\<forall>j < length b1. \<not> outside r f j \<longrightarrow> b2 ! j = b1 ! j"
  shows "field_read r b2 f"
proof -
  obtain k o' t L where f: "f = (k, o', t, L)" by (cases f) auto
  from assms(2) f have w: "0 < width t L" and r: "raw_off r + o' + width t L \<le> length b1"
    by (simp_all add: field_ok_def)
  have "take (width t L) (drop (raw_off r + o') b2) = take (width t L) (drop (raw_off r + o') b1)"
  proof (rule seg_eq_if_agree)
    show "length b2 = length b1" by (rule assms(3))
    show "raw_off r + o' + width t L \<le> length b2" using r assms(3) by simp
    show "\<forall>j. raw_off r + o' \<le> j \<and> j < raw_off r + o' + width t L \<longrightarrow> b2 ! j = b1 ! j"
      using assms(4) r f by (auto simp: outside_def)
  qed
  then have "parse_field b2 (raw_off r + o') k t L = parse_field b1 (raw_off r + o') k t L"
    using r w assms(3) by (intro parse_field_cong) simp_all
  with assms(1) f show ?thesis by (simp add: field_read_def)
qed

lemma save_fields_roundtrip:
  assumes "disjoint_fields m" "\<forall>f \<in> set m. field_ok r (length b) f"
  shows "\<exists>b'. save_fields P r b m = (b', None) \<and> length b' = length b
           \<and> (\<forall>j < length b. (\<forall>f \<in> set m. outside r f j) \<longrightarrow> b' ! j = b ! j)
           \<and> (\<forall>f \<in> set m. field_read r b' f)"
  using assms
proof (induction m arbitrary: b)
  case Nil
  then show ?case by simp
next
  case (Cons f m)
  obtain k o' t L where f: "f = (k, o', t, L)" by (cases f) auto
  from Cons.prems(2) f obtain v where v: "data r k = Some v" "valid_value k t L v"
    and w: "0 < width t L" and rg: "raw_off r + o' + width t L \<le> length b"
    by (auto simp: field_ok_def)
  from save_field_roundtrip [OF v(2) rg w, where P = P] obtain b1 where
    1: "save_field_try P b (raw_off r + o') k t L v = Inr b1"
    and 2: "length b1 = length b"
    and 3: "\<forall>j < length b. j < raw_off r + o' \<or> raw_off r + o' + width t L \<le> j
              \<longrightarrow> b1 ! j = b ! j"
    and 4: "parse_field b1 (raw_off r + o') k t L = v"
    by blast
  from Cons.prems f have dm: "disjoint_fields m"
    and dj: "\<forall>(k2, o2, t2, L2) \<in> set m. o' + width t L \<le> o2 \<or> o2 + width t2 L2 \<le> o'"
    by simp_all
  from Cons.prems(2) 2 have ok: "\<forall>f \<in> set m. field_ok r (length b1) f" by simp
  from Cons.IH [OF dm ok] obtain b' where
    5: "save_fields P r b1 m = (b', None)"
    and 6: "length b' = length b1"
    and 7: "\<forall>j < length b1. (\<forall>f \<in> set m. outside r f j) \<longrightarrow> b' ! j = b1 ! j"
    and 8: "\<forall>f \<in> set m. field_read r b' f"
    by blast
  have a: "save_fields P r b (f # m) = (b', None)"
    using f v 1 5 by simp
  have b: "length b' = length b" using 6 2 by simp
  have c: "\<forall>j < length b. (\<forall>g \<in> set (f # m). outside r g j) \<longrightarrow> b' ! j = b ! j"
  proof (intro allI impI)
    fix j assume j: "j < length b" and o: "\<forall>g \<in> set (f # m). outside r g j"
    then have "b' ! j = b1 ! j" using 7 2 by simp
    moreover have "b1 ! j = b ! j" using 3 j o f by (auto simp: outside_def)
    ultimately show "b' ! j = b ! j" by simp
  qed
  have fr1: "field_read r b1 f" using f v 4 by (simp add: field_read_def)
  have fo1: "field_ok r (length b1) f" using Cons.prems(2) 2 by simp
  have "\<forall>j < length b1. \<not> outside r f j \<longrightarrow> b' ! j = b1 ! j"
  proof (intro allI impI)
    fix j assume j: "j < length b1" and n: "\<not> outside r f j"
    have "\<forall>g \<in> set m. outside r g j"
    proof
      fix g assume g: "g \<in> set m"
      obtain k2 o2 t2 L2 where g2: "g = (k2, o2, t2, L2)" by (cases g) auto
      with dj g have "o' + width t L \<le> o2 \<or> o2 + width t2 L2 \<le> o'" by auto
      with n f g2 show "outside r g j" by (auto simp: outside_def)
    qed
    with 7 j show "b' ! j = b1 ! j" by simp
  qed
  from field_read_cong [OF fr1 fo1 6 this] have d1: "field_read r b' f" .
  with 8 have d: "\<forall>g \<in> set (f # m). field_read r b' g" by simp
  from a b c d show ?case by blast
qed

lemma save_records_roundtrip:
  assumes "\<forall>i < length rs. raw_off (rs ! i) = base + i * s" "195 \<le> s"
      and "\<forall>r \<in> set rs. \<forall>f \<in> set (map_of_rtype (rtype r)). field_ok r (length b) f"
  shows "\<exists>b'. save_records P b rs = (b', None) \<and> length b' = length b
           \<and> (\<forall>j < length b. j < base \<longrightarrow> b' ! j = b ! j)
           \<and> (\<forall>r \<in> set rs. \<forall>f \<in> set (map_of_rtype (rtype r)). field_read r b' f)"
  using assms
proof (induction rs arbitrary: b base)
  case Nil
  then show ?case by simp
next
  case (Cons r rs)
  let ?m = "map_of_rtype (rtype r)"
  from Cons.prems(1) have ro: "raw_off r = base" by auto
  from Cons.prems(3) have ok: "\<forall>f \<in> set ?m. field_ok r (length b) f" by simp
  from save_fields_roundtrip [OF disjoint_fields_map_of_rtype ok, where P = P] obtain b1 where
    1: "save_fields P r b ?m = (b1, None)"
    and 2: "length b1 = length b"
    and 3: "\<forall>j < length b. (\<forall>f \<in> set ?m. outside r f j) \<longrightarrow> b1 ! j = b ! j"
    and 4: "\<forall>f \<in> set ?m. field_read r b1 f"
    by blast
  have offs: "\<forall>i < length rs. raw_off (rs ! i) = (base + s) + i * s"
  proof (intro allI impI)
    fix i assume "i < length rs"
    then have "raw_off ((r # rs) ! Suc i) = base + Suc i * s"
      using Cons.prems(1) by (metis length_Cons Suc_less_eq)
    then show "raw_off (rs ! i) = (base + s) + i * s" by simp
  qed
  from Cons.prems(3) 2
  have ok': "\<forall>r' \<in> set rs. \<forall>f \<in> set (map_of_rtype (rtype r')). field_ok r' (length b1) f"
    by simp
  from Cons.IH [OF offs Cons.prems(2) ok'] obtain b' where
    5: "save_records P b1 rs = (b', None)"
    and 6: "length b' = length b1"
    and 7: "\<forall>j < length b1. j < base + s \<longrightarrow> b' ! j = b1 ! j"
    and 8: "\<forall>r' \<in> set rs. \<forall>f \<in> set (map_of_rtype (rtype r')). field_read r' b' f"
    by blast
  have a: "save_records P b (r # rs) = (b', None)" using 1 5 by simp
  have b: "length b' = length b" using 6 2 by simp
  have c: "\<forall>j < length b. j < base \<longrightarrow> b' ! j = b ! j"
  proof (intro allI impI)
    fix j assume j: "j < length b" "j < base"
    then have "b' ! j = b1 ! j" using 7 2 by simp
    moreover have "\<forall>f \<in> set ?m. outside r f j" using j ro by (auto simp: outside_def)
    ultimately show "b' ! j = b ! j" using 3 j by simp
  qed
  have d: "\<forall>f \<in> set ?m. field_read r b' f"
  proof
    fix f assume f: "f \<in> set ?m"
    obtain k o' t L where f4: "f = (k, o', t, L)" by (cases f) auto
    from fields_fit [of k o' t L "rtype r"] f f4 have fit: "o' + width t L \<le> 195" by simp
    have fr: "field_read r b1 f" using 4 f by simp
    have fo: "field_ok r (length b1) f" using ok f 2 by simp
    have "\<forall>j < length b1. \<not> outside r f j \<longrightarrow> b' ! j = b1 ! j"
    proof (intro allI impI)
      fix j assume j: "j < length b1" and n: "\<not> outside r f j"
      from n f4 ro have "j < base + o' + width t L" by (simp add: outside_def)
      with fit Cons.prems(2) have "j < base + s" by linarith
      with 7 j show "b' ! j = b1 ! j" by simp
    qed
    from field_read_cong [OF fr fo 6 this] show "field_read r b' f" .
  qed
  from a b c d 8 show ?case by auto
qed

text \<open>The field values of a record are valid for its variant: every field of the
  variant's map holds a value its type can carry and that survives the encoding, and the
  keys outside the map are those of the other variant, absent.\<close>

definition valid_fields :: "Record \<Rightarrow> bool" where
  "valid_fields r =
     ((\<forall>(k, o', t, L) \<in> set (map_of_rtype (rtype r)).
          \<exists>v. data r k = Some v \<and> valid_value k t L v)
      \<and> (\<forall>k. k \<notin> fst ` set (map_of_rtype (rtype r)) \<longrightarrow>
            data r k = (if k \<in> insert ''ex_number'' (fst ` set NORMAL_MAP) then Some VNone
                        else None)))"

text \<open>A list of records that belongs to the buffer \<open>b\<close>: as many records as the parser
  counts in \<open>b\<close>, each at its place and of the variant the size detector chooses for the
  length of \<open>b\<close>, with valid field values.\<close>

definition wf_records :: "bytes \<Rightarrow> Record list \<Rightarrow> bool" where
  "wf_records b rs =
     (let s = detect_record_size (int (length b)) in
      length rs = nat (parse_count b)
      \<and> (\<forall>i < length rs.
            index (rs ! i) = i \<and> raw_off (rs ! i) = 4 + i * s
            \<and> rtype (rs ! i) = (if s = NORMAL_SIZE then Normal else ExItem)
            \<and> valid_fields (rs ! i)))"

lemma count_in_range:
  assumes "i < nat (parse_count b)"
  shows "4 + i * detect_record_size (int (length b)) + detect_record_size (int (length b))
           \<le> length b"
  using record_in_range [of i b] assms by (simp add: length_parse)

lemma parse_record_eq:
  assumes "index r = i" "raw_off r = 4 + i * s"
      and "rtype r = (if s = NORMAL_SIZE then Normal else ExItem)"
      and "\<forall>f \<in> set (map_of_rtype (rtype r)). field_read r b f"
      and "\<forall>k. k \<notin> fst ` set (map_of_rtype (rtype r)) \<longrightarrow>
             data r k = (if k \<in> insert ''ex_number'' (fst ` set NORMAL_MAP) then Some VNone
                         else None)"
  shows "parse_record b s i = r"
proof -
  let ?p = "parse_record b s i"
  have ty: "rtype ?p = rtype r" using assms(3) by (simp add: rtype_parse_record)
  have "data ?p k = data r k" for k
  proof (cases "k \<in> fst ` set (map_of_rtype (rtype r))")
    case True
    then obtain o' t L where f: "(k, o', t, L) \<in> set (map_of_rtype (rtype r))" by auto
    with assms(4) have "data r k = Some (parse_field b (raw_off r + o') k t L)"
      by (auto simp: field_read_def)
    moreover have "data ?p k = Some (parse_field b (4 + i * s + o') k t L)"
      using f ty by (intro data_parse_record_in) simp
    ultimately show ?thesis using assms(2) by simp
  next
    case False
    show ?thesis
    proof (cases "k \<in> insert ''ex_number'' (fst ` set NORMAL_MAP)")
      case True
      with False ty have "data ?p k = Some VNone"
        by (intro data_parse_record_other) simp_all
      with assms(5) False True show ?thesis by simp
    next
      case n: False
      then have "k \<notin> dom (data ?p)" by (simp add: dom_parse_record)
      then have "data ?p k = None" by auto
      with assms(5) False n show ?thesis by simp
    qed
  qed
  then have "data ?p = data r" by (rule ext)
  then show ?thesis
    using assms(1,2) ty
    by (intro Record.equality) (simp_all add: index_parse_record raw_off_parse_record)
qed

lemma round_trip_wf:
  assumes "wf_records b rs"
  shows "snd (save_records P b rs) = None
         \<and> length (fst (save_records P b rs)) = length b
         \<and> parse (fst (save_records P b rs)) = rs"
proof -
  define s where "s = detect_record_size (int (length b))"
  from assms have len: "length rs = nat (parse_count b)"
    and wf: "\<And>i. i < length rs \<Longrightarrow>
            index (rs ! i) = i \<and> raw_off (rs ! i) = 4 + i * s
            \<and> rtype (rs ! i) = (if s = NORMAL_SIZE then Normal else ExItem)
            \<and> (\<forall>(k, o', t, L) \<in> set (map_of_rtype (rtype (rs ! i))).
                  \<exists>v. data (rs ! i) k = Some v \<and> valid_value k t L v)
            \<and> (\<forall>k. k \<notin> fst ` set (map_of_rtype (rtype (rs ! i))) \<longrightarrow>
                  data (rs ! i) k
                    = (if k \<in> insert ''ex_number'' (fst ` set NORMAL_MAP) then Some VNone
                       else None))"
    by (simp_all add: wf_records_def valid_fields_def Let_def s_def)
  have s195: "195 \<le> s" unfolding s_def by (rule size_ge_195)
  have offs: "\<forall>i < length rs. raw_off (rs ! i) = 4 + i * s" using wf by simp
  have ok: "\<forall>r \<in> set rs. \<forall>f \<in> set (map_of_rtype (rtype r)). field_ok r (length b) f"
  proof (intro ballI)
    fix r f assume r: "r \<in> set rs" and f: "f \<in> set (map_of_rtype (rtype r))"
    from r obtain i where i: "i < length rs" "r = rs ! i" by (auto simp: in_set_conv_nth)
    obtain k o' t L where f4: "f = (k, o', t, L)" by (cases f) auto
    from count_in_range [of i b] i len have "4 + i * s + s \<le> length b" by (simp add: s_def)
    moreover from fields_fit [of k o' t L "rtype r"] f f4 have "o' + width t L \<le> 195" by simp
    ultimately have "raw_off r + o' + width t L \<le> length b"
      using wf [OF i(1)] i(2) s195 by simp
    moreover have "0 < width t L" using widths_pos f f4 by blast
    moreover have "\<exists>v. data r k = Some v \<and> valid_value k t L v"
      using wf [OF i(1)] i(2) f f4 by auto
    ultimately show "field_ok r (length b) f" using f4 by (simp add: field_ok_def)
  qed
  from save_records_roundtrip [OF offs s195 ok, where P = P] obtain b' where
    1: "save_records P b rs = (b', None)" and 2: "length b' = length b"
    and 3: "\<forall>r \<in> set rs. \<forall>f \<in> set (map_of_rtype (rtype r)). field_read r b' f"
    by blast
  have cnt: "parse_count b' = parse_count b" using 2 by (simp add: parse_count_def)
  have sz: "detect_record_size (int (length b')) = s" using 2 by (simp add: s_def)
  have "parse b' = rs"
  proof (rule nth_equalityI)
    show "length (parse b') = length rs" using len cnt by (simp add: length_parse)
  next
    fix i assume "i < length (parse b')"
    then have i: "i < length rs" using len cnt by (simp add: length_parse)
    then have "parse b' ! i = parse_record b' s i"
      using len cnt sz by (simp add: parse_def)
    also have "\<dots> = rs ! i"
      using wf [OF i] 3 i by (intro parse_record_eq) simp_all
    finally show "parse b' ! i = rs ! i" .
  qed
  with 1 2 show ?thesis by simp
qed

section \<open>The round trip\<close>

text \<open>Two records with valid field values, one of each variant, at the place of the
  \<open>i\<close>-th record of a file.\<close>

definition normal_data :: "string \<rightharpoonup> pyval" where
  "normal_data =
     [''avatar_code'' \<mapsto> VInt 20, ''image_number'' \<mapsto> VInt 3,
      ''name'' \<mapsto> VStr (lit ''Hero''), ''show_in_shop'' \<mapsto> VInt 1,
      ''sell_weekly'' \<mapsto> VInt 1, ''sell_monthly'' \<mapsto> VInt 0, ''sell_eternal'' \<mapsto> VInt 1,
      ''price_weekly_gold'' \<mapsto> VInt 500, ''price_weekly_cash'' \<mapsto> VInt 5,
      ''price_monthly_gold'' \<mapsto> VInt 1500, ''price_monthly_cash'' \<mapsto> VInt 15,
      ''price_eternal_gold'' \<mapsto> VInt 4294967295, ''price_eternal_cash'' \<mapsto> VInt 0,
      ''enable_sale_gold'' \<mapsto> VInt 1, ''enable_sale_cash'' \<mapsto> VInt 255,
      ''description'' \<mapsto> VStr [],
      ''crater_attack'' \<mapsto> VInt 0, ''attack'' \<mapsto> VInt (- 5), ''defense'' \<mapsto> VInt 7,
      ''energy'' \<mapsto> VInt (- 2147483648), ''shield_regen'' \<mapsto> VInt 2147483647,
      ''item_delay'' \<mapsto> VInt 0, ''popularity'' \<mapsto> VInt 1,
      ''ex_number'' \<mapsto> VNone]"

definition exitem_data :: "string \<rightharpoonup> pyval" where
  "exitem_data =
     [''avatar_code'' \<mapsto> VInt 20, ''ex_number'' \<mapsto> VInt 3,
      ''name'' \<mapsto> VStr (lit ''Hero''), ''show_in_shop'' \<mapsto> VInt 1,
      ''sell_weekly'' \<mapsto> VInt 1, ''sell_monthly'' \<mapsto> VInt 0, ''sell_eternal'' \<mapsto> VInt 1,
      ''price_weekly_gold'' \<mapsto> VInt 500, ''price_weekly_cash'' \<mapsto> VInt 5,
      ''price_monthly_gold'' \<mapsto> VInt 1500, ''price_monthly_cash'' \<mapsto> VInt 15,
      ''price_eternal_gold'' \<mapsto> VInt 4294967295, ''price_eternal_cash'' \<mapsto> VInt 0,
      ''enable_sale_gold'' \<mapsto> VInt 1, ''enable_sale_cash'' \<mapsto> VInt 255,
      ''description'' \<mapsto> VStr [],
      ''image_number'' \<mapsto> VNone,
      ''crater_attack'' \<mapsto> VNone, ''attack'' \<mapsto> VNone, ''defense'' \<mapsto> VNone,
      ''energy'' \<mapsto> VNone, ''shield_regen'' \<mapsto> VNone,
      ''item_delay'' \<mapsto> VNone, ''popularity'' \<mapsto> VNone]"

definition normal_rec :: "nat \<Rightarrow> Record" where
  "normal_rec i = \<lparr>index = i, rtype = Normal, raw_off = 4 + i * 644, data = normal_data\<rparr>"

definition exitem_rec :: "nat \<Rightarrow> Record" where
  "exitem_rec i = \<lparr>index = i, rtype = ExItem, raw_off = 4 + i * 684, data = exitem_data\<rparr>"

lemma plain_str_Nil: "plain_str []"
  by (simp add: plain_str_def)

lemma valid_fields_normal_rec: "valid_fields (normal_rec i)"
  unfolding valid_fields_def
proof (intro conjI)
  show "\<forall>(k, o', t, L) \<in> set (map_of_rtype (rtype (normal_rec i))).
          \<exists>v. data (normal_rec i) k = Some v \<and> valid_value k t L v"
    by (simp add: normal_rec_def map_of_rtype_def NORMAL_MAP_def normal_data_def
        valid_value_def plain_str_Hero plain_str_Nil utf8_encode_Hero)
  show "\<forall>k. k \<notin> fst ` set (map_of_rtype (rtype (normal_rec i))) \<longrightarrow>
            data (normal_rec i) k
              = (if k \<in> insert ''ex_number'' (fst ` set NORMAL_MAP) then Some VNone else None)"
    by (simp add: normal_rec_def map_of_rtype_def NORMAL_MAP_def normal_data_def)
qed

lemma valid_fields_exitem_rec: "valid_fields (exitem_rec i)"
  unfolding valid_fields_def
proof (intro conjI)
  show "\<forall>(k, o', t, L) \<in> set (map_of_rtype (rtype (exitem_rec i))).
          \<exists>v. data (exitem_rec i) k = Some v \<and> valid_value k t L v"
    by (simp add: exitem_rec_def map_of_rtype_def EXITEM_MAP_def exitem_data_def
        valid_value_def plain_str_Hero plain_str_Nil utf8_encode_Hero)
  show "\<forall>k. k \<notin> fst ` set (map_of_rtype (rtype (exitem_rec i))) \<longrightarrow>
            data (exitem_rec i) k
              = (if k \<in> insert ''ex_number'' (fst ` set NORMAL_MAP) then Some VNone else None)"
    by (simp add: exitem_rec_def map_of_rtype_def EXITEM_MAP_def NORMAL_MAP_def
        exitem_data_def)
qed

text \<open>
  C1, as the code has it. Let a list of records belong to the buffer: record \<open>i\<close> has
  index \<open>i\<close> and starts at \<open>4 + i * size\<close>, there are as many records as the parser
  counts in the buffer, they are of the variant the size detector chooses for the
  buffer's length, and their field values are valid for that variant. Then the
  re-encoding phase of \<^verbatim>\<open>save\<close> succeeds, keeps the length of the buffer, and parsing
  the re-encoded buffer gives the very same records, for the Normal and for the Ex-item
  variant.
\<close>

theorem round_trip:
  assumes "wf_records b rs"
  shows "snd (save_records P b rs) = None
         \<and> length (fst (save_records P b rs)) = length b
         \<and> parse (fst (save_records P b rs)) = rs"
  using assms by (rule round_trip_wf)

lemma wf_records_normal: "wf_records (replicate 1292 0) [normal_rec 0, normal_rec 1]"
proof -
  have c: "nat (parse_count (replicate 1292 0)) = 2"
    and s: "detect_record_size (int (length (replicate 1292 (0 :: byte)))) = NORMAL_SIZE"
    by (simp_all add: parse_count_def detect_record_size_def NORMAL_SIZE_def EXITEM_SIZE_def)
  have a: "index (normal_rec i) = i \<and> raw_off (normal_rec i) = 4 + i * NORMAL_SIZE
           \<and> rtype (normal_rec i) = Normal \<and> valid_fields (normal_rec i)" for i
    by (simp add: valid_fields_normal_rec) (simp add: normal_rec_def NORMAL_SIZE_def)
  have "\<forall>i < length [normal_rec 0, normal_rec 1].
          index ([normal_rec 0, normal_rec 1] ! i) = i
          \<and> raw_off ([normal_rec 0, normal_rec 1] ! i) = 4 + i * NORMAL_SIZE
          \<and> rtype ([normal_rec 0, normal_rec 1] ! i) = Normal
          \<and> valid_fields ([normal_rec 0, normal_rec 1] ! i)"
  proof (intro allI impI)
    fix i assume "i < length [normal_rec 0, normal_rec 1]"
    then consider "i = 0" | "i = 1" by fastforce
    then show "index ([normal_rec 0, normal_rec 1] ! i) = i
          \<and> raw_off ([normal_rec 0, normal_rec 1] ! i) = 4 + i * NORMAL_SIZE
          \<and> rtype ([normal_rec 0, normal_rec 1] ! i) = Normal
          \<and> valid_fields ([normal_rec 0, normal_rec 1] ! i)"
      using a [of 0] a [of 1] by cases simp_all
  qed
  then show ?thesis
    unfolding wf_records_def Let_def c s by simp
qed

lemma wf_records_exitem: "wf_records (replicate 688 0) [exitem_rec 0]"
proof -
  have c: "nat (parse_count (replicate 688 0)) = 1"
    and s: "detect_record_size (int (length (replicate 688 (0 :: byte)))) = EXITEM_SIZE"
    by (simp_all add: parse_count_def detect_record_size_def NORMAL_SIZE_def EXITEM_SIZE_def)
  have "index (exitem_rec 0) = 0 \<and> raw_off (exitem_rec 0) = 4 + 0 * EXITEM_SIZE
        \<and> rtype (exitem_rec 0) = ExItem \<and> valid_fields (exitem_rec 0)"
    by (simp add: valid_fields_exitem_rec) (simp add: exitem_rec_def)
  then show ?thesis
    unfolding wf_records_def Let_def c s
    by (simp add: NORMAL_SIZE_def EXITEM_SIZE_def)
qed

theorem round_trip_witness:
  "parse (fst (save_records (\<lambda>s. None) (replicate 1292 0) [normal_rec 0, normal_rec 1]))
     = [normal_rec 0, normal_rec 1]
   \<and> snd (save_records (\<lambda>s. None) (replicate 1292 0) [normal_rec 0, normal_rec 1]) = None
   \<and> parse (fst (save_records (\<lambda>s. None) (replicate 688 0) [exitem_rec 0])) = [exitem_rec 0]
   \<and> snd (save_records (\<lambda>s. None) (replicate 688 0) [exitem_rec 0]) = None"
  using round_trip [OF wf_records_normal, where P = "\<lambda>s. None"]
    round_trip [OF wf_records_exitem, where P = "\<lambda>s. None"]
  by simp

text \<open>C1 as stated fails for Ex-item records whose payload 644 divides as well: 161
  valid Ex-item records, each at its place in a buffer of \<open>4 + 161 * 684\<close> bytes, are
  re-encoded without error, and the buffer is then parsed as 171 Normal records.\<close>

lemma save_exitem_161:
  "\<exists>b'. save_records P (replicate 110128 0) (map exitem_rec [0 ..< 161]) = (b', None)
        \<and> length b' = 110128"
proof -
  let ?b = "replicate 110128 (0 :: byte)" and ?rs = "map exitem_rec [0 ..< 161]"
  have offs: "\<forall>i < length ?rs. raw_off (?rs ! i) = 4 + i * 684"
    by (simp add: exitem_rec_def del: upt_rec_numeral)
  have ok: "\<forall>r \<in> set ?rs. \<forall>f \<in> set (map_of_rtype (rtype r)). field_ok r (length ?b) f"
  proof (intro ballI)
    fix r f assume r: "r \<in> set ?rs" and f: "f \<in> set (map_of_rtype (rtype r))"
    from r have "r \<in> exitem_rec ` {0 ..< 161}" by (simp del: upt_rec_numeral)
    then obtain i where i: "i < 161" "r = exitem_rec i" by auto
    obtain k o' t L where f4: "f = (k, o', t, L)" by (cases f) auto
    from fields_fit [of k o' t L "rtype r"] f f4 have "o' + width t L \<le> 195" by simp
    with i have "raw_off r + o' + width t L \<le> length ?b" by (simp add: exitem_rec_def)
    moreover have "0 < width t L" using widths_pos f f4 by blast
    moreover have "\<exists>v. data r k = Some v \<and> valid_value k t L v"
      using valid_fields_exitem_rec [of i] i f f4 by (auto simp: valid_fields_def)
    ultimately show "field_ok r (length ?b) f" using f4 by (simp add: field_ok_def)
  qed
  have "(195 :: nat) \<le> 684" by simp
  from save_records_roundtrip [OF offs this ok, where P = P] show ?thesis by auto
qed

theorem round_trip_exitem_161_counterexample:
  "list_all valid_fields (map exitem_rec [0 ..< 161])
   \<and> map raw_off (map exitem_rec [0 ..< 161]) = map (\<lambda>i. 4 + i * 684) [0 ..< 161]
   \<and> snd (save_records (\<lambda>s. None) (replicate (4 + 161 * 684) 0) (map exitem_rec [0 ..< 161]))
       = None
   \<and> length (parse (fst (save_records (\<lambda>s. None) (replicate (4 + 161 * 684) 0)
               (map exitem_rec [0 ..< 161])))) = 171
   \<and> parse (fst (save_records (\<lambda>s. None) (replicate (4 + 161 * 684) 0)
               (map exitem_rec [0 ..< 161])))
       \<noteq> map exitem_rec [0 ..< 161]"
proof -
  let ?rs = "map exitem_rec [0 ..< 161]"
  from save_exitem_161 [of "\<lambda>s. None"] obtain b' where
    1: "save_records (\<lambda>s. None) (replicate 110128 0) ?rs = (b', None)"
    and 2: "length b' = 110128"
    by blast
  have n: "(4 :: nat) + 161 * 684 = 110128" by simp
  have v: "list_all valid_fields ?rs"
    by (simp add: list_all_iff valid_fields_exitem_rec del: upt_rec_numeral)
  have o: "map raw_off ?rs = map (\<lambda>i. 4 + i * 684) [0 ..< 161]"
    by (simp add: exitem_rec_def del: upt_rec_numeral)
  have l: "length (parse b') = 171"
    using 2
    by (simp add: length_parse parse_count_def detect_record_size_def NORMAL_SIZE_def
        EXITEM_SIZE_def)
  have d: "parse b' \<noteq> ?rs"
  proof
    assume "parse b' = ?rs"
    then have "length (parse b') = length ?rs" by simp
    with l show False by (simp del: upt_rec_numeral)
  qed
  from v o 1 l d show ?thesis unfolding n by (simp del: upt_rec_numeral)
qed

end
